theory Spec2Isabelle
  imports
    Complex_Main
    "HOL-Library.AList"
    "HOL-Library.Char_ord"
    "HOL-Library.List_Lexorder"
    "HOL-Library.Product_Lexorder"
begin

section \<open>The PPP manager (\<^verbatim>\<open>src/ppp_manager.py\<close>)\<close>

text \<open>
  A shallow embedding of the record manager.  Conventions:

  \<^item> A Python \<^verbatim>\<open>str\<close> is a \<^typ>\<open>string\<close> whose characters are the code points
    below 256.  On that range \<^verbatim>\<open>str.strip\<close>, \<^verbatim>\<open>str.lower\<close> and the regular
    expression classes \<^verbatim>\<open>\d\<close> and \<^verbatim>\<open>\s\<close> are written out exactly.
  \<^item> A Python \<^verbatim>\<open>float\<close> is the exact rational it denotes (\<^typ>\<open>rat\<close>).  Rounding to
    binary64 is not modelled.  Text that \<^verbatim>\<open>float()\<close> turns into an infinity or a NaN
    is recognised (\<open>Special\<close>): \<^verbatim>\<open>_clean_int\<close> then returns 0, as in Python, where
    \<^verbatim>\<open>int\<close> raises and the \<^verbatim>\<open>except\<close> clause catches; \<^verbatim>\<open>_clean_number\<close> ends the run with
    \<open>NonFinite\<close>, where the code goes on with the infinity.  So a run that completes here
    holds finite values only.
  \<^item> The leading underscore of a private Python name is dropped: \<^verbatim>\<open>_norm\<close> is
    \<open>norm_str\<close>, \<^verbatim>\<open>_clean_number\<close> is \<open>clean_number\<close>, \<^verbatim>\<open>_clean_int\<close> is
    \<open>clean_int\<close>, \<^verbatim>\<open>_make_index_keys\<close> is \<open>make_index_keys\<close>, \<^verbatim>\<open>_find\<close> is
    \<open>find_entry\<close>, \<^verbatim>\<open>_current_fieldnames\<close> is \<open>current_fieldnames\<close>.
\<close>

subsection \<open>Strings\<close>

text \<open>
  \<^verbatim>\<open>str.strip()\<close> removes the characters for which \<^verbatim>\<open>str.isspace\<close> holds: below 256
  these are 9 to 13, 28 to 32, 0x85 and 0xA0.  The class \<^verbatim>\<open>\s\<close> of \<^verbatim>\<open>re\<close> is the same set.
\<close>

definition is_space :: "char \<Rightarrow> bool" where
  "is_space c \<longleftrightarrow>
     c \<in> set [CHR 0x09, CHR 0x0A, CHR 0x0B, CHR 0x0C, CHR 0x0D,
              CHR 0x1C, CHR 0x1D, CHR 0x1E, CHR 0x1F, CHR 0x20, CHR 0x85, CHR 0xA0]"

definition strip :: "string \<Rightarrow> string" where
  "strip s = rev (dropWhile is_space (rev (dropWhile is_space s)))"

text \<open>
  \<^verbatim>\<open>str.lower()\<close>: the letters A to Z and the Latin-1 capitals 0xC0 to 0xDE (without
  the multiplication sign 0xD7) move up by 32; every other character below 256 stays.
\<close>

definition lower_char :: "char \<Rightarrow> char" where
  "lower_char c =
     (let n = (of_char c :: nat)
      in if (65 \<le> n \<and> n \<le> 90) \<or> (192 \<le> n \<and> n \<le> 214) \<or> (216 \<le> n \<and> n \<le> 222)
         then char_of (n + 32) else c)"

definition lower :: "string \<Rightarrow> string" where
  "lower s = map lower_char s"

text \<open>\<^verbatim>\<open>def _norm(s): return (s or "").strip().lower()\<close>\<close>

definition norm_str :: "string \<Rightarrow> string" where
  "norm_str s = lower (strip s)"

subsection \<open>Python's number conversions\<close>

text \<open>
  \<^verbatim>\<open>float(s)\<close> on text, from the language reference: surrounding white space is
  dropped, then the text is \<^verbatim>\<open>[sign] (number [exponent] | inf | infinity | nan)\<close> with
  \<^verbatim>\<open>number ::= [digitpart] "." digitpart | digitpart ["."]\<close>,
  \<^verbatim>\<open>exponent ::= ("e" | "E") [sign] digitpart\<close> and
  \<^verbatim>\<open>digitpart ::= digit (["_"] digit)*\<close>.  Anything else raises \<^verbatim>\<open>ValueError\<close>.
\<close>

datatype float_parse =
    Malformed        \<comment> \<open>\<^verbatim>\<open>float\<close> raises \<^verbatim>\<open>ValueError\<close>\<close>
  | Special          \<comment> \<open>\<^verbatim>\<open>float\<close> returns an infinity or a NaN\<close>
  | Decimal rat      \<comment> \<open>\<^verbatim>\<open>float\<close> returns this finite value\<close>

definition is_digit :: "char \<Rightarrow> bool" where
  "is_digit c \<longleftrightarrow> c \<in> set ''0123456789''"

definition digit_val :: "char \<Rightarrow> nat" where
  "digit_val c = of_char c - 48"

definition digits_val :: "string \<Rightarrow> nat" where
  "digits_val ds = foldl (\<lambda>a c. 10 * a + digit_val c) 0 ds"

fun digitpart :: "string \<Rightarrow> bool" where
  "digitpart [] = False"
| "digitpart [c] = is_digit c"
| "digitpart (c # d # cs) =
     (is_digit c \<and> (if d = CHR ''_'' then digitpart cs else digitpart (d # cs)))"

definition no_underscores :: "string \<Rightarrow> string" where
  "no_underscores s = filter (\<lambda>c. c \<noteq> CHR ''_'') s"

text \<open>The text before the first character satisfying \<open>P\<close>, and the text after it if there is one.\<close>

definition split_at :: "(char \<Rightarrow> bool) \<Rightarrow> string \<Rightarrow> string \<times> string option" where
  "split_at P s =
     (case dropWhile (\<lambda>c. \<not> P c) s of
        [] \<Rightarrow> (s, None)
      | _ # r \<Rightarrow> (takeWhile (\<lambda>c. \<not> P c) s, Some r))"

text \<open>A number: the value of its digits read as one integer, and how many of them follow the point.\<close>

definition parse_number :: "string \<Rightarrow> (nat \<times> nat) option" where
  "parse_number s =
     (case split_at (\<lambda>c. c = CHR ''.'') s of
        (ip, None) \<Rightarrow> if digitpart ip then Some (digits_val (no_underscores ip), 0) else None
      | (ip, Some fp) \<Rightarrow>
          if (ip = [] \<or> digitpart ip) \<and> (fp = [] \<or> digitpart fp) \<and> \<not> (ip = [] \<and> fp = [])
          then Some (digits_val (no_underscores (ip @ fp)), length (no_underscores fp))
          else None)"

definition parse_exponent :: "string \<Rightarrow> int option" where
  "parse_exponent s =
     (case s of
        [] \<Rightarrow> None
      | c # r \<Rightarrow>
          if c = CHR ''-'' then (if digitpart r then Some (- int (digits_val (no_underscores r))) else None)
          else if c = CHR ''+'' then (if digitpart r then Some (int (digits_val (no_underscores r))) else None)
          else (if digitpart s then Some (int (digits_val (no_underscores s))) else None))"

definition scale10 :: "nat \<Rightarrow> int \<Rightarrow> rat" where
  "scale10 m e = (if 0 \<le> e then of_nat m * 10 ^ nat e else of_nat m / 10 ^ nat (- e))"

text \<open>
  The largest binary64 value is \<open>2^1024 - 2^971\<close>; a decimal at or above the midpoint
  \<open>2^1024 - 2^970\<close> rounds to infinity.
\<close>

definition float_overflow :: rat where
  "float_overflow = 2 ^ 1024 - 2 ^ 970"

definition mk_float :: "bool \<Rightarrow> rat \<Rightarrow> float_parse" where
  "mk_float neg v = (if float_overflow \<le> v then Special else Decimal (if neg then - v else v))"

text \<open>The white space \<^verbatim>\<open>float\<close> itself drops at both ends: 9 to 13, 32, 0x85 and 0xA0.\<close>

definition float_space :: "char \<Rightarrow> bool" where
  "float_space c \<longleftrightarrow>
     c \<in> set [CHR 0x09, CHR 0x0A, CHR 0x0B, CHR 0x0C, CHR 0x0D, CHR 0x20, CHR 0x85, CHR 0xA0]"

definition float_strip :: "string \<Rightarrow> string" where
  "float_strip s = rev (dropWhile float_space (rev (dropWhile float_space s)))"

definition split_sign :: "string \<Rightarrow> bool \<times> string" where
  "split_sign s =
     (case s of
        [] \<Rightarrow> (False, s)
      | c # r \<Rightarrow> if c = CHR ''-'' then (True, r) else if c = CHR ''+'' then (False, r) else (False, s))"

definition py_float :: "string \<Rightarrow> float_parse" where
  "py_float s0 =
     (case split_sign (float_strip s0) of
        (neg, body) \<Rightarrow>
          if lower body \<in> set [''inf'', ''infinity'', ''nan''] then Special
          else (case split_at (\<lambda>c. c = CHR ''e'' \<or> c = CHR ''E'') body of
                  (m, ex) \<Rightarrow>
                    (case parse_number m of
                       None \<Rightarrow> Malformed
                     | Some (d, k) \<Rightarrow>
                         (case (case ex of None \<Rightarrow> Some 0 | Some x \<Rightarrow> parse_exponent x) of
                            None \<Rightarrow> Malformed
                          | Some e \<Rightarrow> mk_float neg (scale10 d (e - int k))))))"

text \<open>\<^verbatim>\<open>int(x)\<close> of a finite float: truncation towards zero.\<close>

definition py_int :: "rat \<Rightarrow> int" where
  "py_int v = (if 0 \<le> v then \<lfloor>v\<rfloor> else \<lceil>v\<rceil>)"

text \<open>\<^verbatim>\<open>str(i)\<close> of an integer, and \<^verbatim>\<open>f"{i:,}"\<close> (groups of three digits from the right).\<close>

definition digit_char :: "nat \<Rightarrow> char" where
  "digit_char d = char_of (48 + d)"

fun digits_of :: "nat \<Rightarrow> string" where
  "digits_of n = (if n < 10 then [digit_char n] else digits_of (n div 10) @ [digit_char (n mod 10)])"

declare digits_of.simps [simp del]

definition str_int :: "int \<Rightarrow> string" where
  "str_int i = (if i < 0 then CHR ''-'' # digits_of (nat (- i)) else digits_of (nat i))"

fun group3 :: "string \<Rightarrow> string" where
  "group3 (a # b # c # d # r) = a # b # c # CHR '','' # group3 (d # r)"
| "group3 s = s"

definition format_comma :: "int \<Rightarrow> string" where
  "format_comma i =
     (if i < 0 then CHR ''-'' # rev (group3 (rev (digits_of (nat (- i)))))
      else rev (group3 (rev (digits_of (nat i)))))"

subsection \<open>The numeric normaliser\<close>

text \<open>
  The values \<^verbatim>\<open>_clean_number\<close> and \<^verbatim>\<open>_clean_int\<close> are called with: the cell of a row (a
  string, or \<^verbatim>\<open>None\<close> for a field that a short row lacks) or a typed line, and an integer
  (the branch \<^verbatim>\<open>isinstance(text, (int, float))\<close>; no caller passes a float).
\<close>

datatype pyval = PyNone | PyStr string | PyInt int

datatype py_error =
    ValueError       \<comment> \<open>the exception of that name\<close>
  | OverflowError    \<comment> \<open>the exception of that name\<close>
  | NonFinite        \<comment> \<open>no exception: the code goes on with an infinity, this development does not\<close>

text \<open>
\<^verbatim>\<open>
def _clean_number(text):
    if isinstance(text, (int, float)):
        return float(text)
    s = str(text or "").strip()
    if re.match(r"^[\d,.\-eE$,\s]+$", s):
        s = s.replace(",", "").replace(" ", "").replace("$", "")
        try:
            return float(s)
        except ValueError:
            pass
    s = re.sub(r"[^0-9.\-eE]", "", s)
    return float(s) if s else 0.0
\<close>
\<close>

definition num_class :: "char \<Rightarrow> bool" where
  "num_class c \<longleftrightarrow> is_digit c \<or> c \<in> set '',.-eE$'' \<or> is_space c"

definition keep_class :: "char \<Rightarrow> bool" where
  "keep_class c \<longleftrightarrow> is_digit c \<or> c \<in> set ''.-eE''"

definition str_or_empty :: "pyval \<Rightarrow> string" where
  "str_or_empty text = (case text of PyStr t \<Rightarrow> t | _ \<Rightarrow> [])"

definition clean_fallback :: "string \<Rightarrow> py_error + rat" where
  "clean_fallback s =
     (let s2 = filter keep_class s
      in if s2 = [] then Inr 0
         else (case py_float s2 of
                 Decimal v \<Rightarrow> Inr v
               | Special \<Rightarrow> Inl NonFinite
               | Malformed \<Rightarrow> Inl ValueError))"

definition clean_number :: "pyval \<Rightarrow> py_error + rat" where
  "clean_number text =
     (case text of
        PyInt i \<Rightarrow> if float_overflow \<le> \<bar>of_int i\<bar> then Inl OverflowError else Inr (of_int i)
      | _ \<Rightarrow>
          (let s = strip (str_or_empty text)
           in if s \<noteq> [] \<and> list_all num_class s
              then (let s1 = filter (\<lambda>c. c \<notin> set '', $'') s
                    in case py_float s1 of
                         Decimal v \<Rightarrow> Inr v
                       | Special \<Rightarrow> Inl NonFinite
                       | Malformed \<Rightarrow> clean_fallback s1)
              else clean_fallback s))"

text \<open>
\<^verbatim>\<open>
def _clean_int(text):
    try:
        return int(float(str(text).strip()))
    except:
        return 0
\<close>
  \<^verbatim>\<open>str(None)\<close> is \<^verbatim>\<open>"None"\<close>, \<^verbatim>\<open>int\<close> of an infinity or a NaN raises, and every exception
  gives 0.
\<close>

definition py_str :: "pyval \<Rightarrow> string" where
  "py_str v = (case v of PyNone \<Rightarrow> ''None'' | PyStr t \<Rightarrow> t | PyInt i \<Rightarrow> str_int i)"

definition clean_int :: "pyval \<Rightarrow> int" where
  "clean_int text = (case py_float (strip (py_str text)) of Decimal v \<Rightarrow> py_int v | _ \<Rightarrow> 0)"

subsection \<open>Records, the store and the schema\<close>

text \<open>
  Every entry the code builds is a dict with the same six keys, never changed after its
  creation, so an entry is a record.  The code compares entries by identity (\<^verbatim>\<open>v is e\<close>):
  an object is an entry together with the address \<open>oid\<close> it was allocated at, and
  \<^verbatim>\<open>v is e\<close> is \<open>oid v = oid e\<close>.
\<close>

record entry =
  name :: string
  ppp :: rat
  rank :: int
  slug :: string
  date :: string
  region :: string

record obj = entry +
  oid :: nat

text \<open>
  The cache is a Python dict: its keys are distinct and it iterates in insertion order;
  assigning to a key that is present keeps the key's place (\<open>AList.update\<close>).
\<close>

type_synonym cache = "(string \<times> obj) list"

text \<open>
  \<^verbatim>\<open>_make_index_keys\<close> returns a Python set, and the callers iterate over it.  The order
  in which a set of two strings is iterated depends on their hashes; it is a parameter
  here: \<open>h a b\<close> says that \<open>a\<close> comes before \<open>b\<close>.
\<close>

type_synonym hash_order = "string \<Rightarrow> string \<Rightarrow> bool"

definition make_index_keys :: "hash_order \<Rightarrow> string \<Rightarrow> string \<Rightarrow> string list" where
  "make_index_keys h nm sl =
     (if nm \<noteq> [] \<and> sl \<noteq> [] then
        (if norm_str nm = norm_str sl then [norm_str nm]
         else if h (norm_str nm) (norm_str sl) then [norm_str nm, norm_str sl]
         else [norm_str sl, norm_str nm])
      else if nm \<noteq> [] then [norm_str nm]
      else if sl \<noteq> [] then [norm_str sl]
      else [])"

text \<open>\<^verbatim>\<open>for k in keys: cache[k] = entry\<close>\<close>

definition index_entry :: "string list \<Rightarrow> obj \<Rightarrow> cache \<Rightarrow> cache" where
  "index_entry ks e c = foldl (\<lambda>c k. AList.update k e c) c ks"

text \<open>The global \<^verbatim>\<open>CURRENT_SCHEMA\<close>.\<close>

record schema =
  has_slug :: bool
  has_date :: bool
  has_region :: bool
  fieldnames :: "string list"

definition cia_fields :: "string list" where
  "cia_fields = [''name'', ''slug'', ''value'', ''date_of_information'', ''ranking'', ''region'']"

definition simple_fields :: "string list" where
  "simple_fields = [''country'', ''ppp'', ''rank'']"

definition default_schema :: schema where
  "default_schema = \<lparr>has_slug = False, has_date = False, has_region = False, fieldnames = simple_fields\<rparr>"

definition cia_schema :: schema where
  "cia_schema = \<lparr>has_slug = True, has_date = True, has_region = True, fieldnames = cia_fields\<rparr>"

definition current_fieldnames :: "schema \<Rightarrow> string list" where
  "current_fieldnames sch = (if fieldnames sch = cia_fields then fieldnames sch else simple_fields)"

subsection \<open>Files\<close>

text \<open>
  A CSV file is the list of rows \<^verbatim>\<open>csv.reader\<close> yields for it, the header row first; the
  \<^verbatim>\<open>csv\<close> module's writer and reader are taken to be inverse to each other on rows of
  cells.  A file that does not exist is \<open>None\<close>.  The state of the process beside the
  cache: the global schema, the two files, and the next free address.
\<close>

type_synonym csv = "string list list"

record world =
  current_schema :: schema
  data_file :: "csv option"
  deleted_file :: "csv option"
  next_oid :: nat

text \<open>
  \<^verbatim>\<open>csv.DictReader\<close>: the first row gives the field names; a row that is \<open>[]\<close> is
  skipped; a row is the dict \<^verbatim>\<open>dict(zip(fieldnames, row))\<close>, in which a later column of
  the same name wins, and the fields a short row lacks are \<^verbatim>\<open>None\<close>.
\<close>

type_synonym row_dict = "(string \<times> pyval) list"

definition dict_row :: "string list \<Rightarrow> string list \<Rightarrow> row_dict" where
  "dict_row fns row = zip fns (map PyStr row @ replicate (length fns - length row) PyNone)"

definition dict_rows :: "csv \<Rightarrow> string list \<times> row_dict list" where
  "dict_rows f =
     (case f of
        [] \<Rightarrow> ([], [])
      | fns # rows \<Rightarrow> (fns, map (dict_row fns) (filter (\<lambda>r. r \<noteq> []) rows)))"

text \<open>\<^verbatim>\<open>row.get(k)\<close>, \<^verbatim>\<open>row.get(k, "")\<close>, truth of a value, and \<^verbatim>\<open>a or b or ... or ""\<close>.\<close>

definition dict_get :: "row_dict \<Rightarrow> string \<Rightarrow> pyval \<Rightarrow> pyval" where
  "dict_get d k dflt = (case map_of (rev d) k of None \<Rightarrow> dflt | Some v \<Rightarrow> v)"

definition truthy :: "pyval \<Rightarrow> bool" where
  "truthy v = (case v of PyNone \<Rightarrow> False | PyStr t \<Rightarrow> t \<noteq> [] | PyInt i \<Rightarrow> i \<noteq> 0)"

fun get_or :: "row_dict \<Rightarrow> string list \<Rightarrow> string" where
  "get_or d [] = []"
| "get_or d (k # ks) = (if truthy (dict_get d k PyNone) then str_or_empty (dict_get d k PyNone) else get_or d ks)"

text \<open>
  The schema test of \<^verbatim>\<open>load_data\<close> and \<^verbatim>\<open>load_deleted\<close>:
  \<^verbatim>\<open>set([...six names...]).issubset(set([h.lower() for h in headers]))\<close> with
  \<^verbatim>\<open>headers = [h.strip() for h in reader.fieldnames or []]\<close>.
\<close>

definition cia_like :: "string list \<Rightarrow> bool" where
  "cia_like fns \<longleftrightarrow> set cia_fields \<subseteq> set (map (\<lambda>h. lower (strip h)) fns)"

text \<open>The two row loops of \<^verbatim>\<open>load_data\<close>; a \<^verbatim>\<open>ValueError\<close> of \<^verbatim>\<open>_clean_number\<close> ends the load.\<close>

definition cia_entry :: "row_dict \<Rightarrow> nat \<Rightarrow> py_error + obj" where
  "cia_entry d a =
     (case clean_number (PyStr (get_or d [''value'', ''Value''])) of
        Inl err \<Rightarrow> Inl err
      | Inr p \<Rightarrow> Inr \<lparr>name = strip (get_or d [''name'', ''Name'']), ppp = p,
                       rank = clean_int (PyStr (get_or d [''ranking'', ''Ranking''])),
                       slug = strip (get_or d [''slug'', ''Slug'']),
                       date = strip (get_or d [''date_of_information'', ''Date_of_information'']),
                       region = strip (get_or d [''region'', ''Region'']), oid = a\<rparr>)"

fun load_cia :: "hash_order \<Rightarrow> row_dict list \<Rightarrow> cache \<Rightarrow> nat \<Rightarrow> py_error + (cache \<times> nat)" where
  "load_cia h [] c a = Inr (c, a)"
| "load_cia h (d # ds) c a =
     (case cia_entry d a of
        Inl err \<Rightarrow> Inl err
      | Inr e \<Rightarrow>
          load_cia h ds
            (index_entry (make_index_keys h (get_or d [''name'', ''Name'']) (get_or d [''slug'', ''Slug''])) e c)
            (Suc a))"

definition simple_entry :: "row_dict \<Rightarrow> nat \<Rightarrow> py_error + obj" where
  "simple_entry d a =
     (case clean_number (PyStr (get_or d [''ppp'', ''PPP'', ''value'', ''PPP (Int$)''])) of
        Inl err \<Rightarrow> Inl err
      | Inr p \<Rightarrow> Inr \<lparr>name = strip (get_or d [''country'', ''Country'', ''name'']), ppp = p,
                       rank = clean_int (PyStr (get_or d [''rank'', ''Rank'', ''ranking''])),
                       slug = [], date = [], region = [], oid = a\<rparr>)"

fun load_simple :: "row_dict list \<Rightarrow> cache \<Rightarrow> nat \<Rightarrow> py_error + (cache \<times> nat)" where
  "load_simple [] c a = Inr (c, a)"
| "load_simple (d # ds) c a =
     (case simple_entry d a of
        Inl err \<Rightarrow> Inl err
      | Inr e \<Rightarrow>
          load_simple ds (AList.update (norm_str (get_or d [''country'', ''Country'', ''name''])) e c) (Suc a))"

text \<open>
  \<^verbatim>\<open>load_data\<close>: no file gives the empty cache and leaves the schema as it is; otherwise
  the header decides the schema, which is stored in the global, and the rows are read.
\<close>

definition load_data :: "hash_order \<Rightarrow> world \<Rightarrow> py_error + (cache \<times> world)" where
  "load_data h w =
     (case data_file w of
        None \<Rightarrow> Inr ([], w)
      | Some f \<Rightarrow>
          (case dict_rows f of
             (fns, ds) \<Rightarrow>
               if cia_like fns
               then (case load_cia h ds [] (next_oid w) of
                       Inl err \<Rightarrow> Inl err
                     | Inr (c, a) \<Rightarrow> Inr (c, w\<lparr>current_schema := cia_schema, next_oid := a\<rparr>))
               else (case load_simple ds [] (next_oid w) of
                       Inl err \<Rightarrow> Inl err
                     | Inr (c, a) \<Rightarrow> Inr (c, w\<lparr>current_schema := default_schema, next_oid := a\<rparr>))))"

text \<open>
  \<^verbatim>\<open>save_data\<close>.  The dict \<^verbatim>\<open>unique\<close> keeps, for every key, the first entry met:
\<^verbatim>\<open>
    for v in cache.values():
        key = (_norm(v.get("name")) or _norm(v.get("slug")))
        if key and key not in unique:
            unique[key] = v
    rows = sorted(unique.values(), key=lambda x: (x.get("rank", 0) or 10**12, _norm(x.get("name"))))
\<close>
  \<^verbatim>\<open>sorted\<close> is stable, as \<open>sort_key\<close> is; tuples and strings compare lexicographically.
\<close>

definition dedupe_key :: "obj \<Rightarrow> string" where
  "dedupe_key v = (if norm_str (name v) \<noteq> [] then norm_str (name v) else norm_str (slug v))"

fun unique_loop :: "obj list \<Rightarrow> (string \<times> obj) list \<Rightarrow> (string \<times> obj) list" where
  "unique_loop [] u = u"
| "unique_loop (v # vs) u =
     (if dedupe_key v \<noteq> [] \<and> map_of u (dedupe_key v) = None
      then unique_loop vs (AList.update (dedupe_key v) v u)
      else unique_loop vs u)"

definition sort_rank :: "obj \<Rightarrow> int \<times> string" where
  "sort_rank x = (if rank x \<noteq> 0 then rank x else 10 ^ 12, norm_str (name x))"

definition save_rows :: "cache \<Rightarrow> obj list" where
  "save_rows c = sort_key sort_rank (map snd (unique_loop (map snd c) []))"

text \<open>The row written for an entry under the two layouts (shared by the four writers).\<close>

definition cia_row :: "obj \<Rightarrow> string list" where
  "cia_row e =
     [name e, slug e, (if ppp e \<noteq> 0 then format_comma (py_int (ppp e)) else ''0''),
      date e, str_int (rank e), region e]"

definition simple_row :: "obj \<Rightarrow> string list" where
  "simple_row e = [name e, str_int (py_int (ppp e)), str_int (rank e)]"

definition write_row :: "schema \<Rightarrow> obj \<Rightarrow> string list" where
  "write_row sch e = (if current_fieldnames sch = cia_fields then cia_row e else simple_row e)"

definition save_data :: "cache \<Rightarrow> world \<Rightarrow> world" where
  "save_data c w =
     w\<lparr>data_file :=
         Some (current_fieldnames (current_schema w) # map (write_row (current_schema w)) (save_rows c))\<rparr>"

text \<open>\<^verbatim>\<open>append_deleted\<close> adds one row, after a header if the file is new.\<close>

definition append_deleted :: "obj \<Rightarrow> world \<Rightarrow> world" where
  "append_deleted e w =
     w\<lparr>deleted_file :=
         Some ((case deleted_file w of
                  None \<Rightarrow> [current_fieldnames (current_schema w)]
                | Some f \<Rightarrow> f) @ [write_row (current_schema w) e])\<rparr>"

definition rewrite_deleted :: "obj list \<Rightarrow> world \<Rightarrow> world" where
  "rewrite_deleted items w =
     w\<lparr>deleted_file :=
         Some (current_fieldnames (current_schema w) # map (write_row (current_schema w)) items)\<rparr>"

text \<open>
  \<^verbatim>\<open>load_deleted\<close> reads the archive by the archive's own header.  Here
  \<^verbatim>\<open>row.get("value", "")\<close> may be \<^verbatim>\<open>None\<close> (a short row).
\<close>

definition deleted_entry :: "bool \<Rightarrow> row_dict \<Rightarrow> nat \<Rightarrow> py_error + obj" where
  "deleted_entry cia d a =
     (if cia then
        (case clean_number (dict_get d ''value'' (PyStr [])) of
           Inl err \<Rightarrow> Inl err
         | Inr p \<Rightarrow> Inr \<lparr>name = strip (get_or d [''name'']), ppp = p,
                          rank = clean_int (dict_get d ''ranking'' (PyStr [])),
                          slug = strip (get_or d [''slug'']),
                          date = strip (get_or d [''date_of_information'']),
                          region = strip (get_or d [''region'']), oid = a\<rparr>)
      else
        (case clean_number (dict_get d ''ppp'' (PyStr [])) of
           Inl err \<Rightarrow> Inl err
         | Inr p \<Rightarrow> Inr \<lparr>name = strip (get_or d [''country'', ''name'']), ppp = p,
                          rank = clean_int (dict_get d ''rank'' (PyStr [])),
                          slug = [], date = [], region = [], oid = a\<rparr>))"

fun deleted_loop :: "bool \<Rightarrow> row_dict list \<Rightarrow> nat \<Rightarrow> py_error + (obj list \<times> nat)" where
  "deleted_loop cia [] a = Inr ([], a)"
| "deleted_loop cia (d # ds) a =
     (case deleted_entry cia d a of
        Inl err \<Rightarrow> Inl err
      | Inr e \<Rightarrow> (case deleted_loop cia ds (Suc a) of
                    Inl err \<Rightarrow> Inl err
                  | Inr (es, a') \<Rightarrow> Inr (e # es, a')))"

definition load_deleted :: "world \<Rightarrow> py_error + (obj list \<times> world)" where
  "load_deleted w =
     (case deleted_file w of
        None \<Rightarrow> Inr ([], w)
      | Some f \<Rightarrow>
          (case dict_rows f of
             (fns, ds) \<Rightarrow>
               (case deleted_loop (cia_like fns) ds (next_oid w) of
                  Inl err \<Rightarrow> Inl err
                | Inr (es, a) \<Rightarrow> Inr (es, w\<lparr>next_oid := a\<rparr>))))"

subsection \<open>The operations\<close>

text \<open>
\<^verbatim>\<open>
def _find(cache, query):
    key = _norm(query)
    if key in cache:
        return cache[key]
    for v in cache.values():
        if _norm(v.get("name")) == key or _norm(v.get("slug")) == key:
            return v
    return None
\<close>
\<close>

definition find_entry :: "cache \<Rightarrow> string \<Rightarrow> obj option" where
  "find_entry c query =
     (case map_of c (norm_str query) of
        Some v \<Rightarrow> Some v
      | None \<Rightarrow>
          List.find (\<lambda>v. norm_str (name v) = norm_str query \<or> norm_str (slug v) = norm_str query)
            (map snd c))"

text \<open>
  \<^verbatim>\<open>update_country\<close> reads up to six lines; the lines for slug, date and region are asked
  for only when the schema has the column.  The entry is indexed, then the store is saved.
\<close>

record update_input =
  name_line :: string
  ppp_line :: string
  rank_line :: string
  slug_line :: string
  date_line :: string
  region_line :: string

definition update_country :: "hash_order \<Rightarrow> update_input \<Rightarrow> cache \<Rightarrow> world \<Rightarrow> py_error + (cache \<times> world)" where
  "update_country h inp c w =
     (case clean_number (PyStr (strip (ppp_line inp))) of
        Inl err \<Rightarrow> Inl err
      | Inr p \<Rightarrow>
          (let e = \<lparr>name = strip (name_line inp), ppp = p,
                    rank = clean_int (PyStr (strip (rank_line inp))),
                    slug = (if has_slug (current_schema w) then strip (slug_line inp) else []),
                    date = (if has_date (current_schema w) then strip (date_line inp) else []),
                    region = (if has_region (current_schema w) then strip (region_line inp) else []),
                    oid = next_oid w\<rparr>;
               c' = index_entry (make_index_keys h (name e) (slug e)) e c
           in Inr (c', save_data c' (w\<lparr>next_oid := Suc (next_oid w)\<rparr>))))"


fun combined_loop :: "cache \<Rightarrow> string list \<Rightarrow> rat \<times> string list \<times> string list \<Rightarrow> rat \<times> string list \<times> string list" where
  "combined_loop c [] acc = acc"
| "combined_loop c (x # xs) (tot, picked, missing) =
     (if strip x = [] then combined_loop c xs (tot, picked, missing)
      else (case find_entry c (strip x) of
              Some e \<Rightarrow> combined_loop c xs (tot + ppp e, picked @ [name e], missing)
            | None \<Rightarrow> combined_loop c xs (tot, picked, missing @ [strip x])))"


text \<open>
\<^verbatim>\<open>
def delete_entry(cache):
    q = input(...).strip()
    e = _find(cache, q)
    if not e:
        print("Country not found.\n")
        return
    to_delete_keys = [k for k,v in cache.items() if v is e]
    for k in to_delete_keys:
        cache.pop(k, None)
    append_deleted(e)
    save_data(cache)
\<close>
  What it prints is the first component of the result.
\<close>

datatype delete_result = NotFound | Deleted obj

definition delete_entry :: "string \<Rightarrow> cache \<Rightarrow> world \<Rightarrow> delete_result \<times> cache \<times> world" where
  "delete_entry line c w =
     (case find_entry c (strip line) of
        None \<Rightarrow> (NotFound, c, w)
      | Some e \<Rightarrow>
          (let to_delete_keys = map fst (filter (\<lambda>(k, v). oid v = oid e) c);
               c' = foldl (\<lambda>c k. AList.delete k c) c to_delete_keys
           in (Deleted e, c', save_data c' (append_deleted e w))))"

text \<open>
\<^verbatim>\<open>
def merge_deleted_back(cache):
    deleted_items = load_deleted()
    if not deleted_items:
        return
    restored, keep_deleted = [], []
    for e in deleted_items:
        if _find(cache, e.get("name","")) or (e.get("slug") and _find(cache, e.get("slug",""))):
            keep_deleted.append(e)
            continue
        for k in _make_index_keys(e.get("name",""), e.get("slug","")):
            cache[k] = e
        restored.append(e.get("name",""))
    save_data(cache)
    rewrite_deleted(keep_deleted)
\<close>
\<close>

definition conflicts :: "cache \<Rightarrow> obj \<Rightarrow> bool" where
  "conflicts c e \<longleftrightarrow>
     find_entry c (name e) \<noteq> None \<or> (slug e \<noteq> [] \<and> find_entry c (slug e) \<noteq> None)"

fun merge_loop :: "hash_order \<Rightarrow> obj list \<Rightarrow> cache \<times> obj list \<times> string list \<Rightarrow> cache \<times> obj list \<times> string list" where
  "merge_loop h [] acc = acc"
| "merge_loop h (e # es) (c, keep_deleted, restored) =
     (if conflicts c e then merge_loop h es (c, keep_deleted @ [e], restored)
      else merge_loop h es
             (index_entry (make_index_keys h (name e) (slug e)) e c, keep_deleted, restored @ [name e]))"

definition merge_deleted_back :: "hash_order \<Rightarrow> cache \<Rightarrow> world \<Rightarrow> py_error + (cache \<times> world \<times> string list)" where
  "merge_deleted_back h c w =
     (case load_deleted w of
        Inl err \<Rightarrow> Inl err
      | Inr (deleted_items, w1) \<Rightarrow>
          if deleted_items = [] then Inr (c, w1, [])
          else (case merge_loop h deleted_items (c, [], []) of
                  (c', keep_deleted, restored) \<Rightarrow>
                    Inr (c', rewrite_deleted keep_deleted (save_data c' w1), restored)))"

subsection \<open>The aggregate as the specification words it\<close>


subsection \<open>Example data\<close>

definition mk_obj :: "string \<Rightarrow> rat \<Rightarrow> int \<Rightarrow> string \<Rightarrow> nat \<Rightarrow> obj" where
  "mk_obj nm p r sl a = \<lparr>name = nm, ppp = p, rank = r, slug = sl, date = [], region = [], oid = a\<rparr>"

text \<open>The records \<^verbatim>\<open>A(ppp=100)\<close> and \<^verbatim>\<open>B(ppp=250)\<close> of the spec's example, as the simple layout loads them.\<close>

definition store_AB :: cache where
  "store_AB = [(''a'', mk_obj ''A'' 100 1 [] 0), (''b'', mk_obj ''B'' 250 2 [] 1)]"

text \<open>A store of the extended layout: a record without a name under its slug, and a record without a slug.\<close>

definition store_noname :: cache where
  "store_noname = [(''x'', mk_obj [] 5 1 ''x'' 0), (''b'', mk_obj ''B'' 7 2 [] 1)]"

text \<open>A hash order that iterates the name key before the slug key, a world under the extended schema
  without files, and the lines typed at the prompts of \<^verbatim>\<open>update_country\<close>.\<close>

definition name_first :: hash_order where
  "name_first a b = True"

definition world_cia :: world where
  "world_cia = \<lparr>current_schema = cia_schema, data_file = None, deleted_file = None, next_oid = 0\<rparr>"

definition mk_input :: "string \<Rightarrow> string \<Rightarrow> string \<Rightarrow> string \<Rightarrow> update_input" where
  "mk_input nm p r sl = \<lparr>name_line = nm, ppp_line = p, rank_line = r, slug_line = sl, date_line = [], region_line = []\<rparr>"

definition store_dup :: cache where
  "store_dup = [(''a'', mk_obj ''A'' 2 3 ''y'' 1), (''x'', mk_obj ''A'' 1 0 ''x'' 0), (''y'', mk_obj ''A'' 2 3 ''y'' 1)]"

definition store_shared :: cache where
  "store_shared = [(''alpha'', mk_obj ''Alpha'' 1 1 ''x'' 0), (''x'', mk_obj ''Beta'' 2 2 ''x'' 1), (''beta'', mk_obj ''Beta'' 2 2 ''x'' 1)]"

definition store_france :: cache where
  "store_france = [(''france'', mk_obj ''France'' 3636000000000 10 ''france-x'' 0),
                   (''france-x'', mk_obj ''France'' 3636000000000 10 ''france-x'' 0),
                   (''b'', mk_obj ''B'' 250 2 [] 1)]"

text \<open>An archive of the simple layout, and a store with ties and a duplicate name.\<close>

definition world_arch :: world where
  "world_arch = \<lparr>current_schema = default_schema, data_file = None,
                  deleted_file = Some [[''country'', ''ppp'', ''rank''], [''A'', ''100'', ''1''], [''C'', ''5'', ''3'']],
                  next_oid = 2\<rparr>"

text \<open>An archive with two rows of the same name, and an archive with a row without a name.\<close>

definition world_twins :: world where
  "world_twins = \<lparr>current_schema = default_schema, data_file = None,
                   deleted_file = Some [[''country'', ''ppp'', ''rank''], [''C'', ''5'', ''3''], [''C'', ''6'', ''4'']],
                   next_oid = 2\<rparr>"

definition world_blank :: world where
  "world_blank = \<lparr>current_schema = default_schema, data_file = None,
                   deleted_file = Some [[''country'', ''ppp'', ''rank''], [[], ''5'', ''3'']],
                   next_oid = 0\<rparr>"

definition store_ranks :: cache where
  "store_ranks = [(''zed'', mk_obj ''Zed'' 9 0 [] 0), (''b'', mk_obj ''B'' 250 2 [] 1),
                  (''c'', mk_obj ''c'' 7 1 ''cc'' 2), (''cc'', mk_obj ''c'' 7 1 ''cc'' 2),
                  (''x'', mk_obj ''C'' 8 5 ''x'' 3), (''a'', mk_obj ''A'' 100 1 [] 4)]"

text \<open>A world under the simple layout without files; two records that differ in the case of
  their names and tie in the rank; an unranked record beside one ranked above the sentinel
  (the rank cell \<^verbatim>\<open>2e12\<close>).\<close>

definition world_simple :: world where
  "world_simple = \<lparr>current_schema = default_schema, data_file = None, deleted_file = None, next_oid = 0\<rparr>"

definition store_case :: cache where
  "store_case = [(''a'', mk_obj ''a'' 1 1 [] 0), (''b'', mk_obj ''B'' 2 1 [] 1)]"

definition store_sentinel :: cache where
  "store_sentinel = [(''u'', mk_obj ''U'' 1 0 [] 0), (''v'', mk_obj ''V'' 2 2000000000000 [] 1)]"

subsection \<open>Notions for the round trip\<close>

text \<open>
  The keys \<^verbatim>\<open>_make_index_keys\<close> gives a record, as a set; the triple of a record, and the
  triple \<^verbatim>\<open>save_data\<close> writes for it (\<^verbatim>\<open>int(ppp)\<close> truncates).
\<close>

definition index_keys :: "obj \<Rightarrow> string set" where
  "index_keys v =
     (if name v \<noteq> [] then {norm_str (name v)} else {}) \<union> (if slug v \<noteq> [] then {norm_str (slug v)} else {})"

definition triple :: "obj \<Rightarrow> string \<times> rat \<times> int" where
  "triple v = (name v, ppp v, rank v)"

definition saved_triple :: "obj \<Rightarrow> string \<times> rat \<times> int" where
  "saved_triple v = (name v, of_int (py_int (ppp v)), rank v)"

text \<open>
  The entry a load builds from the row written for \<open>v\<close>; numbers that binary64 can hold;
  what every loaded entry satisfies; and what a store loaded from the simple layout
  satisfies.
\<close>

definition reloaded :: "bool \<Rightarrow> obj \<Rightarrow> nat \<Rightarrow> obj" where
  "reloaded cia v a =
     \<lparr>name = strip (name v), ppp = of_int (py_int (ppp v)), rank = rank v,
      slug = (if cia then strip (slug v) else []),
      date = (if cia then strip (date v) else []),
      region = (if cia then strip (region v) else []), oid = a\<rparr>"

definition in_range :: "obj \<Rightarrow> bool" where
  "in_range v \<longleftrightarrow> \<bar>ppp v\<bar> < float_overflow \<and> \<bar>of_int (rank v) :: rat\<bar> < float_overflow"

definition loaded_ok :: "obj \<Rightarrow> bool" where
  "loaded_ok v \<longleftrightarrow> in_range v \<and> strip (name v) = name v"

definition simple_store :: "cache \<Rightarrow> bool" where
  "simple_store c \<longleftrightarrow>
     distinct (map fst c) \<and> (\<forall>(k, v)\<in>set c. loaded_ok v \<and> slug v = [] \<and> k = norm_str (name v))"

text \<open>
  Files on which the round trip fails.  Extended layout: a name used twice; a name that is
  the slug of another record, the named record having the lower rank.  Simple layout: a
  row without a name.  With each extended file, the store it loads into.
\<close>

definition world_dup :: world where
  "world_dup = \<lparr>current_schema = default_schema,
                 data_file = Some [cia_fields, [''A'', ''x'', ''1'', [], ''0'', []], [''A'', ''y'', ''2'', [], ''3'', []]],
                 deleted_file = None, next_oid = 0\<rparr>"

definition world_cross :: world where
  "world_cross = \<lparr>current_schema = default_schema,
                   data_file = Some [cia_fields, [''B'', ''a'', ''7'', [], ''2'', []], [''A'', [], ''5'', [], ''1'', []]],
                   deleted_file = None, next_oid = 0\<rparr>"

definition store_cross :: cache where
  "store_cross = [(''b'', mk_obj ''B'' 7 2 ''a'' 0), (''a'', mk_obj ''A'' 5 1 [] 1)]"

definition world_nameless :: world where
  "world_nameless = \<lparr>current_schema = default_schema,
                      data_file = Some [[''country'', ''ppp'', ''rank''], [[], ''5'', ''1'']],
                      deleted_file = None, next_oid = 0\<rparr>"

text \<open>
  Files on which it holds.  Extended layout: a fractional value, two records sharing a
  slug, a record without a name under its slug.  Simple layout with the alternative
  header: a fractional value, a name with surrounding blanks, a rank that is not a number.
\<close>

definition world_mixed :: world where
  "world_mixed = \<lparr>current_schema = default_schema,
                   data_file = Some [[''Name'', ''Slug'', ''Value'', ''Date_of_information'', ''Ranking'', ''Region''],
                                     ['' France'', ''france-x'', ''$3,636.9'', [], ''10'', []],
                                     [''B'', ''s'', ''250'', [], ''2'', []],
                                     [''C'', ''s'', ''7'', [], ''3'', []],
                                     [[], ''x'', ''5'', [], ''4'', []]],
                   deleted_file = None, next_oid = 0\<rparr>"

definition store_mixed :: cache where
  "store_mixed = [(''france'', mk_obj ''France'' (36369 / 10) 10 ''france-x'' 0),
                  (''france-x'', mk_obj ''France'' (36369 / 10) 10 ''france-x'' 0),
                  (''b'', mk_obj ''B'' 250 2 ''s'' 1),
                  (''s'', mk_obj ''C'' 7 3 ''s'' 2),
                  (''c'', mk_obj ''C'' 7 3 ''s'' 2),
                  (''x'', mk_obj [] 5 4 ''x'' 3)]"

definition world_plain :: world where
  "world_plain = \<lparr>current_schema = cia_schema,
                   data_file = Some [[''Country'', ''PPP'', ''Rank''], [''A'', ''100.5'', ''1''], ['' b '', ''250'', ''x'']],
                   deleted_file = None, next_oid = 0\<rparr>"

definition store_plain :: cache where
  "store_plain = [(''a'', mk_obj ''A'' (201 / 2) 1 [] 0), (''b'', mk_obj ''b'' 250 0 [] 1)]"

subsection \<open>Evaluation rules\<close>

lemmas string_eval =
  strip_def is_space_def lower_def lower_char_def norm_str_def char_of_def bit_Suc_0_iff

lemmas float_eval =
  is_digit_def py_float_def float_strip_def float_space_def split_sign_def split_at_def
  parse_number_def parse_exponent_def no_underscores_def digits_val_def digit_val_def
  scale10_def mk_float_def float_overflow_def

lemmas clean_eval =
  clean_number_def clean_fallback_def str_or_empty_def num_class_def keep_class_def

section \<open>The numeric normaliser\<close>

text \<open>
  C1.  The claim: for every input string \<^verbatim>\<open>_clean_number\<close> returns a number without
  raising.  The code guards its first \<^verbatim>\<open>float(s)\<close> with \<^verbatim>\<open>try\<close> and the second only
  against the empty string: on the text \<^verbatim>\<open>-\<close> (a dash in a value cell) both conversions
  fail and the second one's \<^verbatim>\<open>ValueError\<close> leaves the function.
\<close>

theorem clean_number_dash_raises:
  "clean_number (PyStr ''-'') = Inl ValueError"
  by (simp add: clean_eval string_eval float_eval)

text \<open>
  C2, as stated: the three texts \<^verbatim>\<open>27,700,000,000,000\<close>, \<^verbatim>\<open>$33,598,000,000,000\<close> and
  \<^verbatim>\<open>27.7e12\<close> all give 27700000000000.  The second text gives another number.
\<close>

theorem clean_number_same_value_counterexample:
  "clean_number (PyStr ''$33,598,000,000,000'') \<noteq> Inr 27700000000000"
  by (simp add: clean_eval string_eval float_eval)

text \<open>
  C2, amended: the grouped text and the exponent text both give 27700000000000, the
  text with the currency sign gives the number its digits spell, 33598000000000, and the
  number 27700000000000 passes through unchanged.
\<close>

theorem clean_number_accepted_forms:
  "clean_number (PyStr ''27,700,000,000,000'') = Inr 27700000000000 \<and>
   clean_number (PyStr ''$33,598,000,000,000'') = Inr 33598000000000 \<and>
   clean_number (PyStr ''27.7e12'') = Inr 27700000000000 \<and>
   clean_number (PyInt 27700000000000) = Inr 27700000000000"
  by (simp add: clean_eval string_eval float_eval)

section \<open>Lookup\<close>

lemma norm_str_Nil: "norm_str [] = []"
  by (simp add: norm_str_def strip_def lower_def)

lemma norm_str_blank: "strip q = [] \<Longrightarrow> norm_str q = []"
  by (simp add: norm_str_def lower_def)

lemma find_first:
  "\<exists>v\<in>set xs. P v \<Longrightarrow>
   \<exists>v pre post. List.find P xs = Some v \<and> xs = pre @ v # post \<and> P v \<and> (\<forall>u\<in>set pre. \<not> P u)"
proof (induction xs)
  case Nil
  then show ?case by simp
next
  case (Cons x xs)
  show ?case
  proof (cases "P x")
    case True
    then have "List.find P (x # xs) = Some x \<and> x # xs = [] @ x # xs \<and> P x \<and> (\<forall>u\<in>set []. \<not> P u)"
      by simp
    then show ?thesis by blast
  next
    case False
    with Cons.prems have "\<exists>v\<in>set xs. P v" by simp
    from Cons.IH [OF this] obtain v pre post where
      "List.find P xs = Some v" "xs = pre @ v # post" "P v" "\<forall>u\<in>set pre. \<not> P u"
      by blast
    with False have
      "List.find P (x # xs) = Some v \<and> x # xs = (x # pre) @ v # post \<and> P v \<and> (\<forall>u\<in>set (x # pre). \<not> P u)"
      by simp
    then show ?thesis by blast
  qed
qed

text \<open>
  C10, as stated: in a store with a record whose slug is empty and without the key \<^verbatim>\<open>""\<close>, a
  blank query returns the first record with an empty slug.  The scan also compares the
  names: in \<open>store_noname\<close> the record met first has no name, and it is returned although
  its slug is \<^verbatim>\<open>x\<close>; the first record with an empty slug is the other one.
\<close>

theorem find_blank_first_empty_slug_counterexample:
  "(\<exists>v\<in>set (map snd store_noname). slug v = []) \<and> map_of store_noname [] = None \<and>
   find_entry store_noname [] = Some (mk_obj [] 5 1 ''x'' 0) \<and>
   List.find (\<lambda>v. slug v = []) (map snd store_noname) = Some (mk_obj ''B'' 7 2 [] 1)"
  by (simp add: store_noname_def mk_obj_def find_entry_def string_eval)

text \<open>
  C10, amended: in a store that holds a record whose slug is empty and that has no key
  \<^verbatim>\<open>""\<close>, \<^verbatim>\<open>_find\<close> with an empty or whitespace-only query returns a record and not
  \<^verbatim>\<open>None\<close>: the first record, in the order of iteration, whose normalised name or
  normalised slug is empty.  (Where no record has a blank name, as in every store loaded
  from the simple layout without the key \<^verbatim>\<open>""\<close>, that is the first record with an empty slug.)
\<close>

theorem find_blank_query:
  assumes "\<exists>v\<in>set (map snd c). slug v = []"
    and "map_of c [] = None"
    and "strip q = []"
  shows "\<exists>v pre post.
           find_entry c q = Some v \<and> map snd c = pre @ v # post \<and>
           (norm_str (name v) = [] \<or> norm_str (slug v) = []) \<and>
           (\<forall>u\<in>set pre. norm_str (name u) \<noteq> [] \<and> norm_str (slug u) \<noteq> [])"
proof -
  let ?P = "\<lambda>v::obj. norm_str (name v) = [] \<or> norm_str (slug v) = []"
  have key: "norm_str q = []" using assms(3) by (rule norm_str_blank)
  have scan: "find_entry c q = List.find ?P (map snd c)"
    using assms(2) key by (simp add: find_entry_def)
  from assms(1) obtain v0 where "v0 \<in> set (map snd c)" "slug v0 = []"
    by blast
  then have "v0 \<in> set (map snd c) \<and> ?P v0"
    by (simp add: norm_str_Nil)
  then have "\<exists>v\<in>set (map snd c). ?P v"
    by blast
  from find_first [of "map snd c" ?P, OF this] obtain v pre post where
    "List.find ?P (map snd c) = Some v" "map snd c = pre @ v # post" "?P v" "\<forall>u\<in>set pre. \<not> ?P u"
    by blast
  with scan show ?thesis by auto
qed

theorem find_blank_query_witness:
  "\<exists>v pre post.
     find_entry store_AB ''  '' = Some v \<and> map snd store_AB = pre @ v # post \<and>
     (norm_str (name v) = [] \<or> norm_str (slug v) = []) \<and>
     (\<forall>u\<in>set pre. norm_str (name u) \<noteq> [] \<and> norm_str (slug u) \<noteq> [])"
proof -
  have 1: "\<exists>v\<in>set (map snd store_AB). slug v = []"
    by (simp add: store_AB_def mk_obj_def)
  have 2: "map_of store_AB [] = None"
    by (simp add: store_AB_def)
  have 3: "strip ''  '' = []"
    by (simp add: string_eval)
  show ?thesis by (rule find_blank_query [OF 1 2 3])
qed

section \<open>The combined total\<close>





text \<open>
  C9: a query that is empty or consists of white space only is skipped: removing all such
  queries from the list changes none of the three results, whatever has been accumulated.
\<close>

theorem combined_skips_blank:
  "combined_loop c qs acc = combined_loop c (filter (\<lambda>x. strip x \<noteq> []) qs) acc"
proof (induction qs arbitrary: acc)
  case Nil
  show ?case by simp
next
  case (Cons x xs)
  obtain t p m where acc: "acc = (t, p, m)" by (cases acc) auto
  show ?case unfolding acc using Cons.IH
    by (cases "find_entry c (strip x)") simp_all
qed

theorem combined_skips_blank_witness:
  "combined_loop store_AB [''A'', ''  '', [], ''B''] (0, [], []) =
   combined_loop store_AB [''A'', ''B''] (0, [], [])"
  using combined_skips_blank [of store_AB "[''A'', ''  '', [], ''B'']" "(0, [], [])"]
  by (simp add: string_eval)

section \<open>The store\<close>

lemmas update_eval =
  update_country_def Let_def mk_input_def world_cia_def cia_schema_def name_first_def
  make_index_keys_def index_entry_def mk_obj_def clean_int_def py_str_def py_int_def

lemma dropWhile_rev_prefix: "\<exists>r. t = rev (dropWhile P (rev t)) @ r"
proof -
  have "rev (takeWhile P (rev t) @ dropWhile P (rev t)) = rev (rev t)"
    by (simp only: takeWhile_dropWhile_id)
  then have "rev (dropWhile P (rev t)) @ rev (takeWhile P (rev t)) = t"
    by (simp only: rev_append rev_rev_ident)
  then show ?thesis by metis
qed

lemma dropWhile_fix: "xs = [] \<or> \<not> P (hd xs) \<Longrightarrow> dropWhile P xs = xs"
  by (cases xs) auto

lemma strip_strip: "strip (strip s) = strip s"
proof -
  define t where "t = dropWhile is_space s"
  define u where "u = rev (dropWhile is_space (rev t))"
  have t: "t = [] \<or> \<not> is_space (hd t)"
    unfolding t_def by (metis hd_dropWhile)
  obtain r where r: "t = u @ r" unfolding u_def using dropWhile_rev_prefix by blast
  have "u = [] \<or> \<not> is_space (hd u)"
    using t r by (cases u) auto
  then have 1: "dropWhile is_space u = u" by (rule dropWhile_fix)
  have 2: "dropWhile is_space (rev u) = rev u"
    unfolding u_def by simp
  show ?thesis
    using 1 2 unfolding strip_def t_def [symmetric] u_def [symmetric] by simp
qed

lemma norm_str_strip: "norm_str (strip s) = norm_str s"
  by (simp add: norm_str_def strip_strip)

lemma map_of_index_entry:
  "map_of (index_entry ks e c) k = (if k \<in> set ks then Some e else map_of c k)"
  unfolding index_entry_def
  by (induction ks arbitrary: c) (auto simp: update_conv')

lemma update_fresh: "k \<notin> fst ` set al \<Longrightarrow> AList.update k v al = al @ [(k, v)]"
  by (induction al) auto

lemma index_entry_fresh:
  "set ks \<inter> fst ` set c = {} \<Longrightarrow> distinct ks \<Longrightarrow> index_entry ks e c = c @ map (\<lambda>k. (k, e)) ks"
  unfolding index_entry_def
proof (induction ks arbitrary: c)
  case Nil show ?case by simp
next
  case (Cons k ks)
  have 1: "AList.update k e c = c @ [(k, e)]" using Cons.prems(1) by (simp add: update_fresh)
  have 2: "set ks \<inter> fst ` set (c @ [(k, e)]) = {}" using Cons.prems by auto
  show ?case using Cons.IH [OF 2] Cons.prems(2) 1 by simp
qed

lemma set_make_index_keys:
  "set (make_index_keys h nm sl) =
     (if nm \<noteq> [] then {norm_str nm} else {}) \<union> (if sl \<noteq> [] then {norm_str sl} else {})"
  by (auto simp: make_index_keys_def)

lemma distinct_make_index_keys: "distinct (make_index_keys h nm sl)"
  by (auto simp: make_index_keys_def)

lemma save_data_frame:
  "current_schema (save_data c w) = current_schema w"
  "next_oid (save_data c w) = next_oid w"
  "deleted_file (save_data c w) = deleted_file w"
  by (simp_all add: save_data_def)

lemma delete_is_filter: "AList.delete k c = filter (\<lambda>p. fst p \<noteq> k) c"
  by (induction c) auto

lemma foldl_delete:
  "foldl (\<lambda>c k. AList.delete k c) c ks = filter (\<lambda>p. fst p \<notin> set ks) c"
proof (induction ks arbitrary: c)
  case Nil show ?case by simp
next
  case (Cons k ks)
  have "filter (\<lambda>p. fst p \<notin> set ks) (filter (\<lambda>p. fst p \<noteq> k) c) = filter (\<lambda>p. fst p \<notin> set (k # ks)) c"
    by (induction c) auto
  then show ?case using Cons.IH [of "AList.delete k c"] by (simp add: delete_is_filter)
qed

lemma find_in_set: "List.find P xs = Some v \<Longrightarrow> v \<in> set xs \<and> P v"
  by (induction xs) (auto split: if_splits)

lemma find_entry_in_store: "find_entry c q = Some v \<Longrightarrow> v \<in> set (map snd c)"
proof (cases "map_of c (norm_str q)")
  case None
  assume "find_entry c q = Some v"
  with None have "List.find (\<lambda>v. norm_str (name v) = norm_str q \<or> norm_str (slug v) = norm_str q) (map snd c) = Some v"
    by (simp add: find_entry_def)
  then show ?thesis using find_in_set by fast
next
  case (Some u)
  assume "find_entry c q = Some v"
  with Some have "u = v" by (simp add: find_entry_def)
  with Some have "(norm_str q, v) \<in> set c" by (simp add: map_of_SomeD)
  then show ?thesis by force
qed

lemma find_entry_None_iff:
  "find_entry c q = None \<longleftrightarrow>
     map_of c (norm_str q) = None \<and>
     (\<forall>v\<in>set (map snd c). norm_str (name v) \<noteq> norm_str q \<and> norm_str (slug v) \<noteq> norm_str q)"
  unfolding find_entry_def by (cases "map_of c (norm_str q)") (auto simp: find_None_iff)

lemma distinct_keys_value: "distinct (map fst c) \<Longrightarrow> (k, u) \<in> set c \<Longrightarrow> (k, v) \<in> set c \<Longrightarrow> u = v"
  by (rule eq_key_imp_eq_value)

lemma delete_keys_filter:
  assumes "distinct (map fst c)"
  shows "foldl (\<lambda>c k. AList.delete k c) c (map fst (filter (\<lambda>(k, v). oid v = oid e) c)) =
         filter (\<lambda>(k, v). oid v \<noteq> oid e) c"
proof -
  have "(fst p \<notin> set (map fst (filter (\<lambda>(k, v). oid v = oid e) c))) = (case p of (k, v) \<Rightarrow> oid v \<noteq> oid e)"
    if "p \<in> set c" for p
  proof -
    obtain k v where p: "p = (k, v)" by (cases p)
    have same: "v' = v" if "(k, v') \<in> set c" for v'
      using distinct_keys_value [OF assms that] \<open>p \<in> set c\<close> p by simp
    show ?thesis
    proof (cases "oid v = oid e")
      case True
      then have "(k, v) \<in> set (filter (\<lambda>(k, v). oid v = oid e) c)" using \<open>p \<in> set c\<close> p by simp
      then have "k \<in> fst ` set (filter (\<lambda>(k, v). oid v = oid e) c)" by force
      then show ?thesis using True p by simp
    next
      case False
      have "k \<notin> fst ` set (filter (\<lambda>(k, v). oid v = oid e) c)"
      proof
        assume "k \<in> fst ` set (filter (\<lambda>(k, v). oid v = oid e) c)"
        then obtain v' where "(k, v') \<in> set c" "oid v' = oid e" by auto
        with same False show False by blast
      qed
      then show ?thesis using False p by simp
    qed
  qed
  then have "filter (\<lambda>p. fst p \<notin> set (map fst (filter (\<lambda>(k, v). oid v = oid e) c))) c =
             filter (\<lambda>(k, v). oid v \<noteq> oid e) c"
    by (intro filter_cong refl)
  then show ?thesis by (simp only: foldl_delete)
qed

text \<open>
  C4, as stated: after \<^verbatim>\<open>update_country\<close> with a name and a slug both lookups return the new
  record, and in general every record of the store is reachable under its normalised name
  and its non-empty normalised slug.  The general part fails: a second update that reuses
  the slug \<^verbatim>\<open>x\<close> takes that key over, and the first record, still in the store under its
  name, is no longer what its slug resolves to.
\<close>

lemma first_update_alpha: "\<exists>w1. update_country name_first (mk_input ''Alpha'' ''1'' ''1'' ''x'') [] world_cia =
    Inr ([(''alpha'', mk_obj ''Alpha'' 1 1 ''x'' 0), (''x'', mk_obj ''Alpha'' 1 1 ''x'' 0)], w1) \<and> current_schema w1 = cia_schema \<and> next_oid w1 = 1"
  by (simp add: update_eval clean_eval string_eval float_eval save_data_frame)

lemma second_update_beta: "current_schema w1 = cia_schema \<Longrightarrow> next_oid w1 = 1 \<Longrightarrow>
   \<exists>w2. update_country name_first (mk_input ''Beta'' ''2'' ''2'' ''x'')
     [(''alpha'', mk_obj ''Alpha'' 1 1 ''x'' 0), (''x'', mk_obj ''Alpha'' 1 1 ''x'' 0)] w1 = Inr (store_shared, w2)"
  by (simp add: update_eval clean_eval string_eval float_eval save_data_frame store_shared_def)

theorem dual_key_general_counterexample:
  "\<exists>c1 w1 w2 a b.
     update_country name_first (mk_input ''Alpha'' ''1'' ''1'' ''x'') [] world_cia = Inr (c1, w1) \<and>
     update_country name_first (mk_input ''Beta'' ''2'' ''2'' ''x'') c1 w1 = Inr (store_shared, w2) \<and>
     map_of store_shared ''alpha'' = Some a \<and> slug a = ''x'' \<and>
     map_of store_shared (norm_str (slug a)) = Some b \<and> find_entry store_shared (slug a) = Some b \<and> oid b \<noteq> oid a"
proof -
  from first_update_alpha obtain w1 where 1: "update_country name_first (mk_input ''Alpha'' ''1'' ''1'' ''x'') [] world_cia =
    Inr ([(''alpha'', mk_obj ''Alpha'' 1 1 ''x'' 0), (''x'', mk_obj ''Alpha'' 1 1 ''x'' 0)], w1)" "current_schema w1 = cia_schema" "next_oid w1 = 1"
    by blast
  from second_update_beta [OF 1(2,3)] obtain w2 where 2: "update_country name_first (mk_input ''Beta'' ''2'' ''2'' ''x'')
     [(''alpha'', mk_obj ''Alpha'' 1 1 ''x'' 0), (''x'', mk_obj ''Alpha'' 1 1 ''x'' 0)] w1 = Inr (store_shared, w2)"
    by blast
  have 3: "map_of store_shared ''alpha'' = Some (mk_obj ''Alpha'' 1 1 ''x'' 0) \<and> slug (mk_obj ''Alpha'' 1 1 ''x'' 0) = ''x'' \<and>
     map_of store_shared (norm_str (slug (mk_obj ''Alpha'' 1 1 ''x'' 0))) = Some (mk_obj ''Beta'' 2 2 ''x'' 1) \<and>
     find_entry store_shared (slug (mk_obj ''Alpha'' 1 1 ''x'' 0)) = Some (mk_obj ''Beta'' 2 2 ''x'' 1) \<and>
     oid (mk_obj ''Beta'' 2 2 ''x'' 1) \<noteq> oid (mk_obj ''Alpha'' 1 1 ''x'' 0)"
    by (simp add: store_shared_def mk_obj_def find_entry_def string_eval)
  from 1(1) 2 3 show ?thesis by blast
qed

text \<open>
  C4, amended: after \<^verbatim>\<open>update_country\<close> under the schema with slugs, with a non-empty name
  and a non-empty slug, \<^verbatim>\<open>_find\<close> on the name and \<^verbatim>\<open>_find\<close> on the slug return the same
  object, the new record; every other key of the store maps to what it mapped to before.
  (So a record stays reachable under its own keys until a later update reuses one of them.)
\<close>

theorem update_country_indexes:
  assumes "update_country h inp c w = Inr (c', w')"
    and "has_slug (current_schema w)"
    and "strip (name_line inp) \<noteq> []"
    and "strip (slug_line inp) \<noteq> []"
  shows "\<exists>e. find_entry c' (name_line inp) = Some e \<and> find_entry c' (slug_line inp) = Some e \<and>
             oid e = next_oid w \<and> name e = strip (name_line inp) \<and> slug e = strip (slug_line inp) \<and>
             (\<forall>k. k \<noteq> norm_str (name_line inp) \<and> k \<noteq> norm_str (slug_line inp) \<longrightarrow> map_of c' k = map_of c k)"
proof -
  from assms(1) obtain p where p: "clean_number (PyStr (strip (ppp_line inp))) = Inr p"
    by (cases "clean_number (PyStr (strip (ppp_line inp)))") (simp_all add: update_country_def)
  define e :: obj where "e = \<lparr>name = strip (name_line inp), ppp = p,
                    rank = clean_int (PyStr (strip (rank_line inp))),
                    slug = strip (slug_line inp),
                    date = (if has_date (current_schema w) then strip (date_line inp) else []),
                    region = (if has_region (current_schema w) then strip (region_line inp) else []),
                    oid = next_oid w\<rparr>"
  have c': "c' = index_entry (make_index_keys h (name e) (slug e)) e c"
    using assms(1,2) p by (simp add: update_country_def Let_def e_def)
  have keys: "set (make_index_keys h (name e) (slug e)) = {norm_str (name_line inp), norm_str (slug_line inp)}"
    using assms(3,4) by (auto simp: set_make_index_keys e_def norm_str_strip)
  have m: "map_of c' k = (if k = norm_str (name_line inp) \<or> k = norm_str (slug_line inp) then Some e else map_of c k)" for k
    unfolding c' map_of_index_entry keys by simp
  have "find_entry c' (name_line inp) = Some e" "find_entry c' (slug_line inp) = Some e"
    by (simp_all add: find_entry_def m)
  moreover have "oid e = next_oid w" "name e = strip (name_line inp)" "slug e = strip (slug_line inp)"
    by (simp_all add: e_def)
  ultimately show ?thesis using m by auto
qed

theorem update_country_indexes_witness:
  "\<exists>c' w' e. update_country name_first (mk_input ''France'' ''3,636,000,000,000'' ''10'' ''france-x'') [] world_cia = Inr (c', w') \<and>
     find_entry c' ''France'' = Some e \<and> find_entry c' ''france-x'' = Some e \<and> oid e = 0 \<and>
     name e = ''France'' \<and> slug e = ''france-x''"
proof -
  let ?inp = "mk_input ''France'' ''3,636,000,000,000'' ''10'' ''france-x''"
  have "\<exists>c' w'. update_country name_first ?inp [] world_cia = Inr (c', w')"
    by (simp add: update_eval clean_eval string_eval float_eval)
  then obtain c' w' where run: "update_country name_first ?inp [] world_cia = Inr (c', w')" by blast
  have a: "has_slug (current_schema world_cia)" by (simp add: world_cia_def cia_schema_def)
  have b: "strip (name_line ?inp) \<noteq> []" "strip (slug_line ?inp) \<noteq> []"
    by (simp_all add: mk_input_def string_eval)
  from update_country_indexes [OF run a b] obtain e where
    "find_entry c' (name_line ?inp) = Some e" "find_entry c' (slug_line ?inp) = Some e"
    "oid e = next_oid world_cia" "name e = strip (name_line ?inp)" "slug e = strip (slug_line ?inp)"
    by blast
  then have "find_entry c' ''France'' = Some e \<and> find_entry c' ''france-x'' = Some e \<and> oid e = 0 \<and>
     name e = ''France'' \<and> slug e = ''france-x''"
    by (simp add: mk_input_def world_cia_def string_eval)
  with run show ?thesis by blast
qed

section \<open>Deletion\<close>

text \<open>
  C5, as stated: after the deletion of a record indexed under a name key and a slug key,
  neither key resolves via \<^verbatim>\<open>_find\<close>.  In \<open>store_dup\<close>, reached by two updates with the
  same name, the older record has lost its name key to the newer one; deleting the newer
  one removes the keys \<^verbatim>\<open>a\<close> and \<^verbatim>\<open>y\<close>, and the scan of \<^verbatim>\<open>_find\<close> then resolves \<^verbatim>\<open>a\<close> to
  the older record.
\<close>

lemma first_update_a: "\<exists>w1. update_country name_first (mk_input ''A'' ''1'' ''0'' ''x'') [] world_cia =
    Inr ([(''a'', mk_obj ''A'' 1 0 ''x'' 0), (''x'', mk_obj ''A'' 1 0 ''x'' 0)], w1) \<and> current_schema w1 = cia_schema \<and> next_oid w1 = 1"
  by (simp add: update_eval clean_eval string_eval float_eval save_data_frame)

lemma second_update_a: "current_schema w1 = cia_schema \<Longrightarrow> next_oid w1 = 1 \<Longrightarrow>
   \<exists>w2. update_country name_first (mk_input ''A'' ''2'' ''3'' ''y'')
     [(''a'', mk_obj ''A'' 1 0 ''x'' 0), (''x'', mk_obj ''A'' 1 0 ''x'' 0)] w1 = Inr (store_dup, w2)"
  by (simp add: update_eval clean_eval string_eval float_eval save_data_frame store_dup_def)

theorem delete_name_key_resolves_counterexample:
  "\<exists>c1 w1 w2 c' w'.
     update_country name_first (mk_input ''A'' ''1'' ''0'' ''x'') [] world_cia = Inr (c1, w1) \<and>
     update_country name_first (mk_input ''A'' ''2'' ''3'' ''y'') c1 w1 = Inr (store_dup, w2) \<and>
     map_of store_dup ''a'' = Some (mk_obj ''A'' 2 3 ''y'' 1) \<and>
     map_of store_dup ''y'' = Some (mk_obj ''A'' 2 3 ''y'' 1) \<and>
     delete_entry ''a'' store_dup w2 = (Deleted (mk_obj ''A'' 2 3 ''y'' 1), c', w') \<and>
     find_entry c' ''a'' = Some (mk_obj ''A'' 1 0 ''x'' 0)"
proof -
  from first_update_a obtain w1 where 1: "update_country name_first (mk_input ''A'' ''1'' ''0'' ''x'') [] world_cia =
    Inr ([(''a'', mk_obj ''A'' 1 0 ''x'' 0), (''x'', mk_obj ''A'' 1 0 ''x'' 0)], w1)" "current_schema w1 = cia_schema" "next_oid w1 = 1"
    by blast
  from second_update_a [OF 1(2,3)] obtain w2 where 2: "update_country name_first (mk_input ''A'' ''2'' ''3'' ''y'')
     [(''a'', mk_obj ''A'' 1 0 ''x'' 0), (''x'', mk_obj ''A'' 1 0 ''x'' 0)] w1 = Inr (store_dup, w2)"
    by blast
  have 3: "map_of store_dup ''a'' = Some (mk_obj ''A'' 2 3 ''y'' 1) \<and>
     map_of store_dup ''y'' = Some (mk_obj ''A'' 2 3 ''y'' 1)"
    by (simp add: store_dup_def)
  have 4: "\<exists>w'. delete_entry ''a'' store_dup w2 = (Deleted (mk_obj ''A'' 2 3 ''y'' 1), [(''x'', mk_obj ''A'' 1 0 ''x'' 0)], w')"
    by (simp add: delete_entry_def Let_def store_dup_def mk_obj_def find_entry_def string_eval)
  have 5: "find_entry [(''x'', mk_obj ''A'' 1 0 ''x'' 0)] ''a'' = Some (mk_obj ''A'' 1 0 ''x'' 0)"
    by (simp add: mk_obj_def find_entry_def string_eval)
  from 1(1) 2 3 4 5 show ?thesis by blast
qed

text \<open>
  C5, amended: \<^verbatim>\<open>delete_entry\<close> reports that nothing was found, and leaves the store, the
  archive and the data file as they are, when the query matches no record.  Otherwise it
  removes exactly the keys whose value is the located object; afterwards \<^verbatim>\<open>_find\<close> returns
  that object for no query, and a query whose key pointed to it resolves to nothing unless
  another record of the store carries that normalised name or slug; the row of the removed
  record is appended to the archive (after a header if the archive is new).  The keys of
  the store are distinct, as those of every dict are.
\<close>

theorem delete_entry_result:
  assumes "distinct (map fst c)"
  shows "(find_entry c (strip line) = None \<longrightarrow> delete_entry line c w = (NotFound, c, w)) \<and>
         (\<forall>e. find_entry c (strip line) = Some e \<longrightarrow>
            (\<exists>c' w'. delete_entry line c w = (Deleted e, c', w') \<and>
               c' = filter (\<lambda>(k, v). oid v \<noteq> oid e) c \<and>
               (\<forall>q v. find_entry c' q = Some v \<longrightarrow> oid v \<noteq> oid e) \<and>
               (\<forall>q. (\<exists>v. map_of c (norm_str q) = Some v \<and> oid v = oid e) \<and>
                    (\<forall>v\<in>set (map snd c'). norm_str (name v) \<noteq> norm_str q \<and> norm_str (slug v) \<noteq> norm_str q)
                    \<longrightarrow> find_entry c' q = None) \<and>
               deleted_file w' =
                 Some ((case deleted_file w of None \<Rightarrow> [current_fieldnames (current_schema w)] | Some f \<Rightarrow> f)
                       @ [write_row (current_schema w) e])))"
proof (intro conjI allI impI)
  assume "find_entry c (strip line) = None"
  then show "delete_entry line c w = (NotFound, c, w)" by (simp add: delete_entry_def)
next
  fix e assume e: "find_entry c (strip line) = Some e"
  define c' where "c' = filter (\<lambda>(k, v). oid v \<noteq> oid e) c"
  define w' where "w' = save_data c' (append_deleted e w)"
  have run: "delete_entry line c w = (Deleted e, c', w')"
    using e by (simp add: delete_entry_def Let_def delete_keys_filter [OF assms] c'_def w'_def)
  have gone: "\<forall>q v. find_entry c' q = Some v \<longrightarrow> oid v \<noteq> oid e"
  proof (intro allI impI)
    fix q v assume "find_entry c' q = Some v"
    then have "v \<in> set (map snd c')" by (rule find_entry_in_store)
    then show "oid v \<noteq> oid e" by (auto simp: c'_def)
  qed
  have none: "\<forall>q. (\<exists>v. map_of c (norm_str q) = Some v \<and> oid v = oid e) \<and>
        (\<forall>v\<in>set (map snd c'). norm_str (name v) \<noteq> norm_str q \<and> norm_str (slug v) \<noteq> norm_str q)
        \<longrightarrow> find_entry c' q = None"
  proof (intro allI impI)
    fix q
    assume a: "(\<exists>v. map_of c (norm_str q) = Some v \<and> oid v = oid e) \<and>
        (\<forall>v\<in>set (map snd c'). norm_str (name v) \<noteq> norm_str q \<and> norm_str (slug v) \<noteq> norm_str q)"
    then obtain v where v: "map_of c (norm_str q) = Some v" "oid v = oid e" by blast
    have "map_of c' (norm_str q) = None"
    proof (cases "map_of c' (norm_str q)")
      case None then show ?thesis .
    next
      case (Some u)
      then have "(norm_str q, u) \<in> set c'" by (rule map_of_SomeD)
      then have u: "(norm_str q, u) \<in> set c" "oid u \<noteq> oid e" by (auto simp: c'_def)
      have "(norm_str q, v) \<in> set c" using v(1) by (rule map_of_SomeD)
      with u(1) have "u = v" using assms by (rule distinct_keys_value [rotated])
      with u(2) v(2) show ?thesis by simp
    qed
    with a show "find_entry c' q = None" by (simp add: find_entry_None_iff)
  qed
  have arch: "deleted_file w' =
                 Some ((case deleted_file w of None \<Rightarrow> [current_fieldnames (current_schema w)] | Some f \<Rightarrow> f)
                       @ [write_row (current_schema w) e])"
    by (simp add: w'_def save_data_frame append_deleted_def)
  have "delete_entry line c w = (Deleted e, c', w') \<and>
               c' = filter (\<lambda>(k, v). oid v \<noteq> oid e) c \<and>
               (\<forall>q v. find_entry c' q = Some v \<longrightarrow> oid v \<noteq> oid e) \<and>
               (\<forall>q. (\<exists>v. map_of c (norm_str q) = Some v \<and> oid v = oid e) \<and>
                    (\<forall>v\<in>set (map snd c'). norm_str (name v) \<noteq> norm_str q \<and> norm_str (slug v) \<noteq> norm_str q)
                    \<longrightarrow> find_entry c' q = None) \<and>
               deleted_file w' =
                 Some ((case deleted_file w of None \<Rightarrow> [current_fieldnames (current_schema w)] | Some f \<Rightarrow> f)
                       @ [write_row (current_schema w) e])"
    using run gone none arch c'_def by (intro conjI)
  then show "\<exists>c' w'. delete_entry line c w = (Deleted e, c', w') \<and>
               c' = filter (\<lambda>(k, v). oid v \<noteq> oid e) c \<and>
               (\<forall>q v. find_entry c' q = Some v \<longrightarrow> oid v \<noteq> oid e) \<and>
               (\<forall>q. (\<exists>v. map_of c (norm_str q) = Some v \<and> oid v = oid e) \<and>
                    (\<forall>v\<in>set (map snd c'). norm_str (name v) \<noteq> norm_str q \<and> norm_str (slug v) \<noteq> norm_str q)
                    \<longrightarrow> find_entry c' q = None) \<and>
               deleted_file w' =
                 Some ((case deleted_file w of None \<Rightarrow> [current_fieldnames (current_schema w)] | Some f \<Rightarrow> f)
                       @ [write_row (current_schema w) e])"
    by (intro exI)
qed

theorem delete_entry_result_witness:
  "delete_entry ''zzz'' store_france world_cia = (NotFound, store_france, world_cia) \<and>
   (\<exists>c' w'. delete_entry '' France '' store_france world_cia =
               (Deleted (mk_obj ''France'' 3636000000000 10 ''france-x'' 0), c', w') \<and>
            c' = [(''b'', mk_obj ''B'' 250 2 [] 1)] \<and>
            find_entry c' ''France'' = None \<and> find_entry c' ''france-x'' = None \<and>
            deleted_file w' = Some [cia_fields, cia_row (mk_obj ''France'' 3636000000000 10 ''france-x'' 0)])"
proof -
  let ?F = "mk_obj ''France'' 3636000000000 10 ''france-x'' 0"
  have d: "distinct (map fst store_france)" by (simp add: store_france_def)
  have nf: "find_entry store_france (strip ''zzz'') = None"
    by (simp add: store_france_def mk_obj_def find_entry_def string_eval)
  have f: "find_entry store_france (strip '' France '') = Some ?F"
    by (simp add: store_france_def mk_obj_def find_entry_def string_eval)
  have 1: "delete_entry ''zzz'' store_france world_cia = (NotFound, store_france, world_cia)"
    using delete_entry_result [OF d, of "''zzz''" world_cia] nf by blast
  from delete_entry_result [OF d, of "'' France ''" world_cia] f
  obtain c' w' where r: "delete_entry '' France '' store_france world_cia = (Deleted ?F, c', w')"
    "c' = filter (\<lambda>(k, v). oid v \<noteq> oid ?F) store_france"
    "\<forall>q. (\<exists>v. map_of store_france (norm_str q) = Some v \<and> oid v = oid ?F) \<and>
         (\<forall>v\<in>set (map snd c'). norm_str (name v) \<noteq> norm_str q \<and> norm_str (slug v) \<noteq> norm_str q)
         \<longrightarrow> find_entry c' q = None"
    "deleted_file w' =
       Some ((case deleted_file world_cia of None \<Rightarrow> [current_fieldnames (current_schema world_cia)] | Some f \<Rightarrow> f)
             @ [write_row (current_schema world_cia) ?F])"
    by blast
  have c': "c' = [(''b'', mk_obj ''B'' 250 2 [] 1)]"
    unfolding r(2) by (simp add: store_france_def mk_obj_def)
  have q1: "find_entry c' ''France'' = None"
    using r(3) [rule_format, of "''France''"] unfolding c'
    by (simp add: store_france_def mk_obj_def string_eval)
  have q2: "find_entry c' ''france-x'' = None"
    using r(3) [rule_format, of "''france-x''"] unfolding c'
    by (simp add: store_france_def mk_obj_def string_eval)
  have a: "deleted_file w' = Some [cia_fields, cia_row ?F]"
    unfolding r(4) by (simp add: world_cia_def cia_schema_def current_fieldnames_def write_row_def)
  from 1 r(1) c' q1 q2 a show ?thesis by blast
qed

section \<open>Restoring from the archive\<close>

lemmas file_eval =
  dict_rows_def dict_row_def dict_get_def truthy_def cia_like_def cia_fields_def simple_fields_def
  default_schema_def current_fieldnames_def write_row_def

lemmas order_eval = less_eq_prod_def less_prod_def less_char_def less_eq_char_def

lemma digits_of_small: "n < 10 \<Longrightarrow> digits_of n = [digit_char n]"
  by (simp add: digits_of.simps)

lemma digits_of_large: "10 \<le> n \<Longrightarrow> digits_of n = digits_of (n div 10) @ [digit_char (n mod 10)]"
  by (subst digits_of.simps) simp

lemmas format_eval =
  py_int_def format_comma_def str_int_def digits_of_small digits_of_large digit_char_def
  char_of_def bit_Suc_0_iff

lemma find_entry_None_key: "find_entry c q = None \<Longrightarrow> norm_str q \<notin> fst ` set c"
  by (simp add: find_entry_None_iff map_of_eq_None_iff)

lemma not_conflicts_fresh:
  assumes "\<not> conflicts c e"
  shows "set (make_index_keys h (name e) (slug e)) \<inter> fst ` set c = {}"
proof -
  have 1: "norm_str (name e) \<notin> fst ` set c"
    using assms by (simp add: conflicts_def find_entry_None_key)
  have 2: "norm_str (slug e) \<notin> fst ` set c" if "slug e \<noteq> []"
    using assms that by (simp add: conflicts_def find_entry_None_key)
  show ?thesis using 1 2 by (auto simp: set_make_index_keys split: if_splits)
qed

lemma restore_appends:
  "\<not> conflicts c e \<Longrightarrow>
   index_entry (make_index_keys h (name e) (slug e)) e c =
     c @ map (\<lambda>k. (k, e)) (make_index_keys h (name e) (slug e))"
  by (rule index_entry_fresh [OF not_conflicts_fresh distinct_make_index_keys])

lemma merge_loop_grows:
  "merge_loop h es (c, k, r) = (c', k', r') \<Longrightarrow>
   \<exists>added k2 r2. c' = c @ added \<and> k' = k @ k2 \<and> set k2 \<subseteq> set es \<and> r' = r @ r2"
proof (induction es arbitrary: c k r)
  case Nil
  then show ?case by simp
next
  case (Cons e es)
  show ?case
  proof (cases "conflicts c e")
    case True
    with Cons.prems have "merge_loop h es (c, k @ [e], r) = (c', k', r')" by simp
    from Cons.IH [OF this] obtain added k2 r2 where
      "c' = c @ added" "k' = (k @ [e]) @ k2" "set k2 \<subseteq> set es" "r' = r @ r2" by blast
    then have "c' = c @ added \<and> k' = k @ (e # k2) \<and> set (e # k2) \<subseteq> set (e # es) \<and> r' = r @ r2"
      by auto
    then show ?thesis by blast
  next
    case False
    let ?new = "map (\<lambda>k. (k, e)) (make_index_keys h (name e) (slug e))"
    from False Cons.prems have "merge_loop h es (c @ ?new, k, r @ [name e]) = (c', k', r')"
      by (simp add: restore_appends)
    from Cons.IH [OF this] obtain added k2 r2 where
      "c' = (c @ ?new) @ added" "k' = k @ k2" "set k2 \<subseteq> set es" "r' = (r @ [name e]) @ r2" by blast
    then have "c' = c @ (?new @ added) \<and> k' = k @ k2 \<and> set k2 \<subseteq> set (e # es) \<and> r' = r @ (name e # r2)"
      by auto
    then show ?thesis by blast
  qed
qed

lemma merge_loop_append:
  "merge_loop h (xs @ ys) acc = merge_loop h ys (merge_loop h xs acc)"
proof (induction xs arbitrary: acc)
  case Nil show ?case by simp
next
  case (Cons e xs)
  obtain c k r where acc: "acc = (c, k, r)" by (cases acc) auto
  show ?case unfolding acc using Cons.IH by simp
qed

lemma find_entry_append_mono:
  assumes "find_entry c q \<noteq> None"
  shows "find_entry (c @ a) q \<noteq> None"
proof -
  from assms have "norm_str q \<in> fst ` set c \<or>
      (\<exists>v\<in>set (map snd c). norm_str (name v) = norm_str q \<or> norm_str (slug v) = norm_str q)"
    unfolding find_entry_None_iff map_of_eq_None_iff by blast
  then have "norm_str q \<in> fst ` set (c @ a) \<or>
      (\<exists>v\<in>set (map snd (c @ a)). norm_str (name v) = norm_str q \<or> norm_str (slug v) = norm_str q)"
    by auto
  then show ?thesis
    unfolding find_entry_None_iff map_of_eq_None_iff by blast
qed

lemma conflicts_append_mono: "conflicts c e \<Longrightarrow> conflicts (c @ a) e"
  unfolding conflicts_def using find_entry_append_mono by blast

lemma map_of_new_keys: "k \<in> set ks \<Longrightarrow> map_of (map (\<lambda>k. (k, e)) ks) k = Some e"
  by (induction ks) auto

lemma restored_stays:
  assumes "\<not> conflicts c1 e" and "k \<in> set (make_index_keys h (name e) (slug e))"
  shows "map_of ((c1 @ map (\<lambda>k. (k, e)) (make_index_keys h (name e) (slug e))) @ added) k = Some e"
proof -
  have "k \<notin> fst ` set c1" using not_conflicts_fresh [OF assms(1), of h] assms(2) by blast
  then have "map_of c1 k = None" by (simp add: map_of_eq_None_iff)
  then have "map_of (c1 @ map (\<lambda>k. (k, e)) (make_index_keys h (name e) (slug e))) k = Some e"
    using map_of_new_keys [OF assms(2), of e] by (simp add: map_of_append map_add_def)
  then show ?thesis by (auto simp: map_of_append map_add_def split: option.splits)
qed

lemma load_deleted_schema: "load_deleted w = Inr (items, w1) \<Longrightarrow> current_schema w1 = current_schema w"
  by (auto simp: load_deleted_def split: option.splits prod.splits sum.splits)

lemma find_entry_append_iff:
  "find_entry (c @ a) q \<noteq> None \<longleftrightarrow> find_entry c q \<noteq> None \<or> find_entry a q \<noteq> None"
  unfolding find_entry_None_iff map_of_eq_None_iff by auto

lemma conflicts_append_iff: "conflicts (c @ a) e \<longleftrightarrow> conflicts c e \<or> conflicts a e"
  unfolding conflicts_def find_entry_append_iff by blast

lemma merge_loop_added:
  "merge_loop h es (c, k, r) = (c', k', r') \<Longrightarrow> \<exists>added. c' = c @ added \<and> snd ` set added \<subseteq> set es"
proof (induction es arbitrary: c k r)
  case Nil
  then show ?case by simp
next
  case (Cons e es)
  show ?case
  proof (cases "conflicts c e")
    case True
    with Cons.prems have "merge_loop h es (c, k @ [e], r) = (c', k', r')" by simp
    from Cons.IH [OF this] obtain added where "c' = c @ added" "snd ` set added \<subseteq> set es" by blast
    then have "c' = c @ added \<and> snd ` set added \<subseteq> set (e # es)" by auto
    then show ?thesis by blast
  next
    case False
    let ?new = "map (\<lambda>k. (k, e)) (make_index_keys h (name e) (slug e))"
    from False Cons.prems have "merge_loop h es (c @ ?new, k, r @ [name e]) = (c', k', r')"
      by (simp add: restore_appends)
    from Cons.IH [OF this] obtain added where
      "c' = (c @ ?new) @ added" "snd ` set added \<subseteq> set es" by blast
    then have "c' = c @ (?new @ added) \<and> snd ` set (?new @ added) \<subseteq> set (e # es)"
      by auto
    then show ?thesis by blast
  qed
qed

lemma load_twins:
  "load_deleted world_twins = Inr ([mk_obj ''C'' 5 3 [] 2, mk_obj ''C'' 6 4 [] 3], world_twins\<lparr>next_oid := 4\<rparr>)"
  by (simp add: load_deleted_def world_twins_def deleted_entry_def file_eval mk_obj_def
      clean_int_def py_str_def py_int_def clean_eval string_eval float_eval)

lemma load_blank:
  "load_deleted world_blank = Inr ([mk_obj [] 5 3 [] 0], world_blank\<lparr>next_oid := 1\<rparr>)"
  by (simp add: load_deleted_def world_blank_def deleted_entry_def file_eval mk_obj_def
      clean_int_def py_str_def py_int_def clean_eval string_eval float_eval)

lemma load_arch:
  "load_deleted world_arch = Inr ([mk_obj ''A'' 100 1 [] 2, mk_obj ''C'' 5 3 [] 3], world_arch\<lparr>next_oid := 4\<rparr>)"
  by (simp add: load_deleted_def world_arch_def deleted_entry_def file_eval mk_obj_def
      clean_int_def py_str_def py_int_def clean_eval string_eval float_eval)

text \<open>
  C6, as stated: every archived record that conflicts with no live record is inserted into
  the store and removed from the archive.  The conflict is looked up in the store as it is
  when the record's turn comes: of two archived rows named \<^verbatim>\<open>C\<close>, with no \<^verbatim>\<open>C\<close> in the store
  before the call, the first is restored and the second is then kept in the archive,
  although it conflicts with no record that was live before the call.  And an archived
  record with neither name nor slug, met when no live record has an empty name or slug, is
  reported restored and dropped from the archive without being put under any key.
\<close>

theorem restore_partition_counterexample:
  "\<not> conflicts store_AB (mk_obj ''C'' 6 4 [] 3) \<and>
   (\<exists>w'. merge_deleted_back name_first store_AB world_twins =
            Inr (store_AB @ [(''c'', mk_obj ''C'' 5 3 [] 2)], w', [''C'']) \<and>
          deleted_file w' = Some [[''country'', ''ppp'', ''rank''], [''C'', ''6'', ''4'']]) \<and>
   \<not> conflicts [] (mk_obj [] 5 3 [] 0) \<and>
   (\<exists>w'. merge_deleted_back name_first [] world_blank = Inr ([], w', [[]]) \<and>
          deleted_file w' = Some [[''country'', ''ppp'', ''rank'']])"
proof -
  let ?C = "mk_obj ''C'' 5 3 [] 2" and ?D = "mk_obj ''C'' 6 4 [] 3" and ?E = "mk_obj [] 5 3 [] 0"
  have cC: "\<not> conflicts store_AB ?C"
    by (simp add: conflicts_def find_entry_def store_AB_def mk_obj_def string_eval)
  have cD: "\<not> conflicts store_AB ?D"
    by (simp add: conflicts_def find_entry_def store_AB_def mk_obj_def string_eval)
  have cD': "conflicts (store_AB @ [(''c'', ?C)]) ?D"
    by (simp add: conflicts_def find_entry_def store_AB_def mk_obj_def string_eval)
  have cE: "\<not> conflicts [] ?E"
    by (simp add: conflicts_def find_entry_def mk_obj_def string_eval)
  have iC: "index_entry (make_index_keys name_first (name ?C) (slug ?C)) ?C store_AB = store_AB @ [(''c'', ?C)]"
    by (simp add: index_entry_def make_index_keys_def mk_obj_def store_AB_def string_eval)
  have nC: "name ?C = ''C''" by (simp add: mk_obj_def)
  have loop: "merge_loop name_first [?C, ?D] (store_AB, [], []) = (store_AB @ [(''c'', ?C)], [?D], [''C''])"
    using cC cD' by (simp add: iC [unfolded nC] nC)
  have iE: "index_entry (make_index_keys name_first (name ?E) (slug ?E)) ?E [] = []"
    by (simp add: index_entry_def make_index_keys_def mk_obj_def)
  have nE: "name ?E = []" by (simp add: mk_obj_def)
  have loopE: "merge_loop name_first [?E] ([], [], []) = ([], [], [[]])"
    using cE by (simp add: iE [unfolded nE] nE)
  have 1: "merge_deleted_back name_first store_AB world_twins =
      Inr (store_AB @ [(''c'', ?C)],
           rewrite_deleted [?D] (save_data (store_AB @ [(''c'', ?C)]) (world_twins\<lparr>next_oid := 4\<rparr>)), [''C''])"
    by (simp add: merge_deleted_back_def load_twins loop del: merge_loop.simps)
  have 2: "deleted_file (rewrite_deleted [?D] (save_data (store_AB @ [(''c'', ?C)]) (world_twins\<lparr>next_oid := 4\<rparr>))) =
      Some [[''country'', ''ppp'', ''rank''], [''C'', ''6'', ''4'']]"
    by (simp add: rewrite_deleted_def save_data_frame world_twins_def file_eval simple_row_def mk_obj_def format_eval)
  have 3: "merge_deleted_back name_first [] world_blank =
      Inr ([], rewrite_deleted [] (save_data [] (world_blank\<lparr>next_oid := 1\<rparr>)), [[]])"
    by (simp add: merge_deleted_back_def load_blank loopE del: merge_loop.simps)
  have 4: "deleted_file (rewrite_deleted [] (save_data [] (world_blank\<lparr>next_oid := 1\<rparr>))) =
      Some [[''country'', ''ppp'', ''rank'']]"
    by (simp add: rewrite_deleted_def save_data_frame world_blank_def file_eval)
  from 1 2 have a: "\<exists>w'. merge_deleted_back name_first store_AB world_twins =
            Inr (store_AB @ [(''c'', ?C)], w', [''C'']) \<and>
          deleted_file w' = Some [[''country'', ''ppp'', ''rank''], [''C'', ''6'', ''4'']]" by blast
  from 3 4 have b: "\<exists>w'. merge_deleted_back name_first [] world_blank = Inr ([], w', [[]]) \<and>
          deleted_file w' = Some [[''country'', ''ppp'', ''rank'']]" by blast
  from cD a cE b show ?thesis by (intro conjI)
qed

text \<open>
  C6, amended: \<^verbatim>\<open>merge_deleted_back\<close> goes through the archive in order.  Let the archive be
  \<open>pre @ e # post\<close> and let \<open>c1\<close> be the store when the turn of \<open>e\<close> comes: the store \<open>c\<close>
  before the call, extended at its end by records of \<open>pre\<close> restored so far; \<open>e\<close> conflicts
  with \<open>c1\<close> exactly when it conflicts with \<open>c\<close> or with these.  The store is only ever
  extended at its end, so no live record is overwritten.  If \<open>e\<close> conflicts with \<open>c1\<close>
  (\<^verbatim>\<open>_find\<close> on its name, or on its non-empty slug, returns a record), it is appended to the
  kept list.  If not, it is not appended to the kept list, its name is appended to the
  restored names, and in the final store its normalised name, when the name is not empty,
  and its normalised slug, when the slug is not empty, map to \<open>e\<close>, so that \<^verbatim>\<open>_find\<close> returns
  \<open>e\<close> for them.  The archive file is rewritten with the kept records only.
\<close>

theorem merge_deleted_back_partition:
  assumes "load_deleted w = Inr (pre @ e # post, w1)"
    and "merge_loop h pre (c, [], []) = (c1, k1, r1)"
  shows "\<exists>c' keep restored.
      merge_deleted_back h c w = Inr (c', rewrite_deleted keep (save_data c' w1), restored) \<and>
      merge_loop h (pre @ e # post) (c, [], []) = (c', keep, restored) \<and>
      deleted_file (rewrite_deleted keep (save_data c' w1)) =
        Some (current_fieldnames (current_schema w) # map (write_row (current_schema w)) keep) \<and>
      (\<exists>added. c' = c @ added) \<and>
      (\<exists>a1. c1 = c @ a1 \<and> snd ` set a1 \<subseteq> set pre \<and> (conflicts c1 e \<longleftrightarrow> conflicts c e \<or> conflicts a1 e)) \<and>
      (conflicts c e \<longrightarrow> conflicts c1 e) \<and>
      (conflicts c1 e \<longrightarrow> (\<exists>k2. keep = k1 @ e # k2 \<and> set k2 \<subseteq> set post)) \<and>
      (\<not> conflicts c1 e \<longrightarrow>
         (\<exists>k2. keep = k1 @ k2 \<and> set k2 \<subseteq> set post) \<and> (\<exists>r2. restored = r1 @ name e # r2) \<and>
         (\<forall>k\<in>set (make_index_keys h (name e) (slug e)). map_of c' k = Some e) \<and>
         (name e \<noteq> [] \<longrightarrow> map_of c' (norm_str (name e)) = Some e \<and> find_entry c' (name e) = Some e) \<and>
         (slug e \<noteq> [] \<longrightarrow> map_of c' (norm_str (slug e)) = Some e \<and> find_entry c' (slug e) = Some e))"
proof -
  obtain c' keep restored where run: "merge_loop h (pre @ e # post) (c, [], []) = (c', keep, restored)"
    by (cases "merge_loop h (pre @ e # post) (c, [], [])") auto
  have whole: "merge_deleted_back h c w = Inr (c', rewrite_deleted keep (save_data c' w1), restored)"
    using assms(1) run by (simp add: merge_deleted_back_def)
  have sch: "current_schema w1 = current_schema w" using assms(1) by (rule load_deleted_schema)
  have arch: "deleted_file (rewrite_deleted keep (save_data c' w1)) =
        Some (current_fieldnames (current_schema w) # map (write_row (current_schema w)) keep)"
    by (simp add: rewrite_deleted_def save_data_frame sch)
  from merge_loop_added [OF assms(2)] obtain a1 where c1: "c1 = c @ a1" and a1: "snd ` set a1 \<subseteq> set pre"
    by blast
  have live: "\<exists>a1. c1 = c @ a1 \<and> snd ` set a1 \<subseteq> set pre \<and> (conflicts c1 e \<longleftrightarrow> conflicts c e \<or> conflicts a1 e)"
    using c1 a1 conflicts_append_iff [of c a1 e] by blast
  from merge_loop_grows [OF run] obtain added where c': "c' = c @ added" by blast
  have mono: "conflicts c e \<longrightarrow> conflicts c1 e"
    unfolding c1 using conflicts_append_mono by blast
  have step: "merge_loop h (e # post) (c1, k1, r1) = (c', keep, restored)"
    using run assms(2) by (simp add: merge_loop_append)
  have kept: "\<exists>k2. keep = k1 @ e # k2 \<and> set k2 \<subseteq> set post" if "conflicts c1 e"
  proof -
    from step that have "merge_loop h post (c1, k1 @ [e], r1) = (c', keep, restored)" by simp
    from merge_loop_grows [OF this] obtain k2 where "keep = (k1 @ [e]) @ k2" "set k2 \<subseteq> set post" by blast
    then have "keep = k1 @ e # k2 \<and> set k2 \<subseteq> set post" by simp
    then show ?thesis by blast
  qed
  have rest: "(\<exists>k2. keep = k1 @ k2 \<and> set k2 \<subseteq> set post) \<and> (\<exists>r2. restored = r1 @ name e # r2) \<and>
         (\<forall>k\<in>set (make_index_keys h (name e) (slug e)). map_of c' k = Some e) \<and>
         (name e \<noteq> [] \<longrightarrow> map_of c' (norm_str (name e)) = Some e \<and> find_entry c' (name e) = Some e) \<and>
         (slug e \<noteq> [] \<longrightarrow> map_of c' (norm_str (slug e)) = Some e \<and> find_entry c' (slug e) = Some e)"
    if nc: "\<not> conflicts c1 e"
  proof -
    let ?new = "map (\<lambda>k. (k, e)) (make_index_keys h (name e) (slug e))"
    from step nc have "merge_loop h post (c1 @ ?new, k1, r1 @ [name e]) = (c', keep, restored)"
      by (simp add: restore_appends)
    from merge_loop_grows [OF this] obtain added' k2 r2 where g:
      "c' = (c1 @ ?new) @ added'" "keep = k1 @ k2" "set k2 \<subseteq> set post" "restored = (r1 @ [name e]) @ r2"
      by blast
    have keys: "\<forall>k\<in>set (make_index_keys h (name e) (slug e)). map_of c' k = Some e"
      unfolding g(1) using restored_stays [OF nc] by blast
    have nm: "map_of c' (norm_str (name e)) = Some e \<and> find_entry c' (name e) = Some e" if "name e \<noteq> []"
    proof -
      from that have "norm_str (name e) \<in> set (make_index_keys h (name e) (slug e))"
        by (simp add: set_make_index_keys)
      with keys have "map_of c' (norm_str (name e)) = Some e" by blast
      then show ?thesis by (simp add: find_entry_def)
    qed
    have sl: "map_of c' (norm_str (slug e)) = Some e \<and> find_entry c' (slug e) = Some e" if "slug e \<noteq> []"
    proof -
      from that have "norm_str (slug e) \<in> set (make_index_keys h (name e) (slug e))"
        by (simp add: set_make_index_keys)
      with keys have "map_of c' (norm_str (slug e)) = Some e" by blast
      then show ?thesis by (simp add: find_entry_def)
    qed
    have "restored = r1 @ name e # r2" using g(4) by simp
    with keys nm sl g(2,3) show ?thesis by blast
  qed
  from whole run arch c' live mono kept rest show ?thesis by blast
qed

text \<open>The store of \<^verbatim>\<open>A\<close> and \<^verbatim>\<open>B\<close> with the archive of \<^verbatim>\<open>A\<close> and \<^verbatim>\<open>C\<close>: the two files afterwards.\<close>

theorem merge_deleted_back_partition_witness:
  "\<exists>c' w' restored.
     merge_deleted_back name_first store_AB world_arch = Inr (c', w', restored) \<and>
     conflicts store_AB (mk_obj ''A'' 100 1 [] 2) \<and> \<not> conflicts store_AB (mk_obj ''C'' 5 3 [] 3) \<and>
     c' = store_AB @ [(''c'', mk_obj ''C'' 5 3 [] 3)] \<and>
     find_entry c' ''A'' = Some (mk_obj ''A'' 100 1 [] 0) \<and>
     find_entry c' ''C'' = Some (mk_obj ''C'' 5 3 [] 3) \<and>
     restored = [''C''] \<and>
     deleted_file w' = Some [[''country'', ''ppp'', ''rank''], [''A'', ''100'', ''1'']] \<and>
     data_file w' = Some [[''country'', ''ppp'', ''rank''], [''A'', ''100'', ''1''], [''B'', ''250'', ''2''], [''C'', ''5'', ''3'']]"
proof -
  let ?A = "mk_obj ''A'' 100 1 [] 2" and ?C = "mk_obj ''C'' 5 3 [] 3"
  let ?w1 = "world_arch\<lparr>next_oid := 4\<rparr>"
  have ld: "load_deleted world_arch = Inr ([?A] @ ?C # [], ?w1)"
    using load_arch by simp
  have cA: "conflicts store_AB ?A"
    by (simp add: conflicts_def find_entry_def store_AB_def mk_obj_def string_eval)
  have cC: "\<not> conflicts store_AB ?C"
    by (simp add: conflicts_def find_entry_def store_AB_def mk_obj_def string_eval)
  have pre: "merge_loop name_first [?A] (store_AB, [], []) = (store_AB, [?A], [])"
    using cA by simp
  have nC: "name ?C \<noteq> []" "name ?C = ''C''" by (simp_all add: mk_obj_def)
  from merge_deleted_back_partition [OF ld pre] cC nC(1)
  obtain c' keep restored where r:
    "merge_deleted_back name_first store_AB world_arch = Inr (c', rewrite_deleted keep (save_data c' ?w1), restored)"
    "merge_loop name_first ([?A] @ ?C # []) (store_AB, [], []) = (c', keep, restored)"
    "deleted_file (rewrite_deleted keep (save_data c' ?w1)) =
        Some (current_fieldnames (current_schema world_arch) # map (write_row (current_schema world_arch)) keep)"
    "\<exists>k2. keep = [?A] @ k2 \<and> set k2 \<subseteq> set []"
    "\<exists>r2. restored = [] @ name ?C # r2"
    "find_entry c' (name ?C) = Some ?C"
    by blast
  have loop: "merge_loop name_first ([?A] @ ?C # []) (store_AB, [], []) =
      (store_AB @ [(''c'', ?C)], [?A], [''C''])"
    using cA cC
    by (simp add: index_entry_def make_index_keys_def)
      (simp add: mk_obj_def store_AB_def string_eval)
  from r(2) loop have v: "c' = store_AB @ [(''c'', ?C)]" "restored = [''C'']" by simp_all
  from r(4) have k: "keep = [?A]" by simp
  have a: "find_entry c' ''A'' = Some (mk_obj ''A'' 100 1 [] 0)"
    unfolding v by (simp add: find_entry_def store_AB_def string_eval)
  have c: "find_entry c' ''C'' = Some ?C" using r(6) nC(2) by simp
  have f: "deleted_file (rewrite_deleted keep (save_data c' ?w1)) =
      Some [[''country'', ''ppp'', ''rank''], [''A'', ''100'', ''1'']]"
    using r(3) unfolding k by (simp add: world_arch_def file_eval simple_row_def mk_obj_def format_eval)
  have rows: "save_rows (store_AB @ [(''c'', ?C)]) = [mk_obj ''A'' 100 1 [] 0, mk_obj ''B'' 250 2 [] 1, ?C]"
    by (simp add: save_rows_def store_AB_def mk_obj_def dedupe_key_def sort_rank_def sort_key_def
      string_eval order_eval)
  have g: "data_file (rewrite_deleted keep (save_data c' ?w1)) =
      Some [[''country'', ''ppp'', ''rank''], [''A'', ''100'', ''1''], [''B'', ''250'', ''2''], [''C'', ''5'', ''3'']]"
    unfolding v save_data_def rewrite_deleted_def rows
    by (simp add: world_arch_def file_eval simple_row_def mk_obj_def format_eval)
  from r(1) cA cC v a c f g show ?thesis by blast
qed

section \<open>Saving\<close>

lemma unique_loop_spec:
  assumes "unique_loop vs u = r"
  shows "\<exists>new. r = u @ new \<and>
           (\<forall>(k, v)\<in>set new. k = dedupe_key v \<and> k \<noteq> [] \<and> k \<notin> fst ` set u \<and>
              (\<exists>pre post. vs = pre @ v # post \<and> (\<forall>x\<in>set pre. dedupe_key x \<noteq> k))) \<and>
           distinct (map fst new) \<and>
           (\<forall>x\<in>set vs. dedupe_key x \<noteq> [] \<longrightarrow> dedupe_key x \<in> fst ` set r)"
  using assms
proof (induction vs arbitrary: u r)
  case Nil
  then show ?case by simp
next
  case (Cons x vs)
  show ?case
  proof (cases "dedupe_key x \<noteq> [] \<and> map_of u (dedupe_key x) = None")
    case True
    then have fresh: "dedupe_key x \<notin> fst ` set u" by (simp add: map_of_eq_None_iff)
    then have upd: "AList.update (dedupe_key x) x u = u @ [(dedupe_key x, x)]" by (rule update_fresh)
    from True Cons.prems have "unique_loop vs (u @ [(dedupe_key x, x)]) = r" by (simp add: upd)
    from Cons.IH [OF this] obtain new where n:
      "r = (u @ [(dedupe_key x, x)]) @ new"
      "\<forall>(k, v)\<in>set new. k = dedupe_key v \<and> k \<noteq> [] \<and> k \<notin> fst ` set (u @ [(dedupe_key x, x)]) \<and>
              (\<exists>pre post. vs = pre @ v # post \<and> (\<forall>x\<in>set pre. dedupe_key x \<noteq> k))"
      "distinct (map fst new)"
      "\<forall>y\<in>set vs. dedupe_key y \<noteq> [] \<longrightarrow> dedupe_key y \<in> fst ` set r"
      by blast
    let ?new = "(dedupe_key x, x) # new"
    have 1: "r = u @ ?new" using n(1) by simp
    have 2: "\<forall>(k, v)\<in>set ?new. k = dedupe_key v \<and> k \<noteq> [] \<and> k \<notin> fst ` set u \<and>
              (\<exists>pre post. x # vs = pre @ v # post \<and> (\<forall>y\<in>set pre. dedupe_key y \<noteq> k))"
    proof (clarify)
      fix k v assume kv: "(k, v) \<in> set ?new"
      show "k = dedupe_key v \<and> k \<noteq> [] \<and> k \<notin> fst ` set u \<and>
              (\<exists>pre post. x # vs = pre @ v # post \<and> (\<forall>y\<in>set pre. dedupe_key y \<noteq> k))"
      proof (cases "(k, v) = (dedupe_key x, x)")
        case True
        then have "x # vs = [] @ v # vs \<and> (\<forall>y\<in>set []. dedupe_key y \<noteq> k)" by simp
        then have "\<exists>pre post. x # vs = pre @ v # post \<and> (\<forall>y\<in>set pre. dedupe_key y \<noteq> k)" by blast
        with True \<open>dedupe_key x \<noteq> [] \<and> map_of u (dedupe_key x) = None\<close> fresh show ?thesis by simp
      next
        case False
        with kv have "(k, v) \<in> set new" by auto
        with n(2) have p: "k = dedupe_key v" "k \<noteq> []" "k \<notin> fst ` set (u @ [(dedupe_key x, x)])"
          "\<exists>pre post. vs = pre @ v # post \<and> (\<forall>y\<in>set pre. dedupe_key y \<noteq> k)" by auto
        from p(4) obtain pre post where "vs = pre @ v # post" "\<forall>y\<in>set pre. dedupe_key y \<noteq> k" by blast
        with p(3) have "x # vs = (x # pre) @ v # post \<and> (\<forall>y\<in>set (x # pre). dedupe_key y \<noteq> k)" by auto
        then have "\<exists>pre post. x # vs = pre @ v # post \<and> (\<forall>y\<in>set pre. dedupe_key y \<noteq> k)" by blast
        with p show ?thesis by auto
      qed
    qed
    have 3: "distinct (map fst ?new)"
    proof -
      have "dedupe_key x \<notin> fst ` set new"
      proof
        assume "dedupe_key x \<in> fst ` set new"
        then obtain v where "(dedupe_key x, v) \<in> set new" by auto
        with n(2) have "dedupe_key x \<notin> fst ` set (u @ [(dedupe_key x, x)])" by auto
        then show False by simp
      qed
      with n(3) show ?thesis by simp
    qed
    have 4: "\<forall>y\<in>set (x # vs). dedupe_key y \<noteq> [] \<longrightarrow> dedupe_key y \<in> fst ` set r"
      using n(4) n(1) by auto
    from 1 2 3 4 show ?thesis by blast
  next
    case False
    with Cons.prems have "unique_loop vs u = r" by auto
    from Cons.IH [OF this] obtain new where n:
      "r = u @ new"
      "\<forall>(k, v)\<in>set new. k = dedupe_key v \<and> k \<noteq> [] \<and> k \<notin> fst ` set u \<and>
              (\<exists>pre post. vs = pre @ v # post \<and> (\<forall>x\<in>set pre. dedupe_key x \<noteq> k))"
      "distinct (map fst new)"
      "\<forall>y\<in>set vs. dedupe_key y \<noteq> [] \<longrightarrow> dedupe_key y \<in> fst ` set r"
      by blast
    have 2: "\<forall>(k, v)\<in>set new. k = dedupe_key v \<and> k \<noteq> [] \<and> k \<notin> fst ` set u \<and>
              (\<exists>pre post. x # vs = pre @ v # post \<and> (\<forall>y\<in>set pre. dedupe_key y \<noteq> k))"
    proof (clarify)
      fix k v assume kv: "(k, v) \<in> set new"
      with n(2) have p: "k = dedupe_key v" "k \<noteq> []" "k \<notin> fst ` set u"
          "\<exists>pre post. vs = pre @ v # post \<and> (\<forall>y\<in>set pre. dedupe_key y \<noteq> k)" by auto
      from p(4) obtain pre post where pp: "vs = pre @ v # post" "\<forall>y\<in>set pre. dedupe_key y \<noteq> k" by blast
      have "dedupe_key x \<noteq> k"
      proof
        assume "dedupe_key x = k"
        with False p(2) have "map_of u k \<noteq> None" by auto
        then have "k \<in> fst ` set u" by (simp add: map_of_eq_None_iff)
        with p(3) show False by simp
      qed
      with pp have "x # vs = (x # pre) @ v # post \<and> (\<forall>y\<in>set (x # pre). dedupe_key y \<noteq> k)" by auto
      then have "\<exists>pre post. x # vs = pre @ v # post \<and> (\<forall>y\<in>set pre. dedupe_key y \<noteq> k)" by blast
      with p show "k = dedupe_key v \<and> k \<noteq> [] \<and> k \<notin> fst ` set u \<and>
              (\<exists>pre post. x # vs = pre @ v # post \<and> (\<forall>y\<in>set pre. dedupe_key y \<noteq> k))" by auto
    qed
    have 4: "\<forall>y\<in>set (x # vs). dedupe_key y \<noteq> [] \<longrightarrow> dedupe_key y \<in> fst ` set r"
    proof -
      have "dedupe_key x \<in> fst ` set r" if "dedupe_key x \<noteq> []"
      proof -
        from False that have "map_of u (dedupe_key x) \<noteq> None" by auto
        then have "dedupe_key x \<in> fst ` set u" by (simp add: map_of_eq_None_iff)
        then show ?thesis using n(1) by auto
      qed
      with n(4) show ?thesis by auto
    qed
    from n(1) 2 n(3) 4 show ?thesis by blast
  qed
qed

lemma distinct_map_insort:
  "distinct (map f (insort_key g x xs)) \<longleftrightarrow> f x \<notin> f ` set xs \<and> distinct (map f xs)"
  by (induction xs) (auto simp: set_insort_key)

lemma distinct_map_sort: "distinct (map f (sort_key g xs)) \<longleftrightarrow> distinct (map f xs)"
  by (induction xs) (simp_all add: sort_key_simps distinct_map_insort)

lemma unique_keys:
  assumes "unique_loop vs [] = r"
  shows "map fst r = map dedupe_key (map snd r)"
proof -
  from unique_loop_spec [OF assms] have "\<forall>(k, v)\<in>set r. k = dedupe_key v" by auto
  then show ?thesis by (induction r) auto
qed

lemma save_rows_ranks:
  "save_rows store_ranks =
     [mk_obj ''A'' 100 1 [] 4, mk_obj ''c'' 7 1 ''cc'' 2, mk_obj ''B'' 250 2 [] 1, mk_obj ''Zed'' 9 0 [] 0]"
  by (simp add: save_rows_def store_ranks_def mk_obj_def dedupe_key_def sort_rank_def sort_key_def
      string_eval order_eval)

lemma unique_loop_Nil:
  assumes "unique_loop vs [] = r"
  shows "\<forall>(k, v)\<in>set r. k = dedupe_key v \<and> k \<noteq> [] \<and>
              (\<exists>pre post. vs = pre @ v # post \<and> (\<forall>x\<in>set pre. dedupe_key x \<noteq> k))"
    and "distinct (map fst r)"
    and "\<forall>x\<in>set vs. dedupe_key x \<noteq> [] \<longrightarrow> dedupe_key x \<in> fst ` set r"
proof -
  from unique_loop_spec [OF assms] obtain new where all:
    "r = ([]::(string \<times> obj) list) @ new \<and>
    (\<forall>(k, v)\<in>set new. k = dedupe_key v \<and> k \<noteq> [] \<and> k \<notin> fst ` set ([]::(string \<times> obj) list) \<and>
        (\<exists>pre post. vs = pre @ v # post \<and> (\<forall>x\<in>set pre. dedupe_key x \<noteq> k))) \<and>
    distinct (map fst new) \<and>
    (\<forall>x\<in>set vs. dedupe_key x \<noteq> [] \<longrightarrow> dedupe_key x \<in> fst ` set r)" ..
  note n = all [THEN conjunct1] all [THEN conjunct2, THEN conjunct1]
    all [THEN conjunct2, THEN conjunct2, THEN conjunct1] all [THEN conjunct2, THEN conjunct2, THEN conjunct2]
  have new: "new = r" using n(1) by simp
  show "\<forall>(k, v)\<in>set r. k = dedupe_key v \<and> k \<noteq> [] \<and>
              (\<exists>pre post. vs = pre @ v # post \<and> (\<forall>x\<in>set pre. dedupe_key x \<noteq> k))"
  proof (clarify)
    fix k v assume "(k, v) \<in> set r"
    with n(2) new have "k = dedupe_key v \<and> k \<noteq> [] \<and> k \<notin> fst ` set ([]::(string \<times> obj) list) \<and>
        (\<exists>pre post. vs = pre @ v # post \<and> (\<forall>x\<in>set pre. dedupe_key x \<noteq> k))"
      by fast
    then show "k = dedupe_key v \<and> k \<noteq> [] \<and>
              (\<exists>pre post. vs = pre @ v # post \<and> (\<forall>x\<in>set pre. dedupe_key x \<noteq> k))"
      by (elim conjE) (intro conjI)
  qed
  show "distinct (map fst r)" using n(3) new by simp
  show "\<forall>x\<in>set vs. dedupe_key x \<noteq> [] \<longrightarrow> dedupe_key x \<in> fst ` set r" by (rule n(4))
qed

lemma unranked_place:
  assumes s: "sorted_wrt (\<lambda>x y. sort_rank x \<le> sort_rank y) (pre @ u # post)" and u: "rank u = 0"
  shows "(\<forall>x\<in>set pre. rank x \<le> 10 ^ 12) \<and> (\<forall>x\<in>set post. rank x = 0 \<or> 10 ^ 12 \<le> rank x)"
proof (intro conjI ballI)
  fix x assume x: "x \<in> set pre"
  from s x have "sort_rank x \<le> sort_rank u" by (simp add: sorted_wrt_append)
  then have "fst (sort_rank x) \<le> fst (sort_rank u)" by (auto simp: less_eq_prod_def)
  with u have "(if rank x \<noteq> 0 then rank x else 10 ^ 12) \<le> (10 ^ 12 :: int)" by (simp add: sort_rank_def)
  then show "rank x \<le> 10 ^ 12" by (cases "rank x = 0") simp_all
next
  fix x assume x: "x \<in> set post"
  from s x have "sort_rank u \<le> sort_rank x" by (simp add: sorted_wrt_append)
  then have "fst (sort_rank u) \<le> fst (sort_rank x)" by (auto simp: less_eq_prod_def)
  with u have "10 ^ 12 \<le> (if rank x \<noteq> 0 then rank x else 10 ^ 12)" by (simp add: sort_rank_def)
  then show "rank x = 0 \<or> 10 ^ 12 \<le> rank x" by (cases "rank x = 0") simp_all
qed

text \<open>
  C8, as stated: the rows are in ascending order of the rank, the unranked records (rank 0)
  last, and among equal ranks in ascending order of the name.  Two things differ.  The names
  are compared after \<^verbatim>\<open>_norm\<close>: of two records ranked 1 the one named \<^verbatim>\<open>a\<close> is written before
  the one named \<^verbatim>\<open>B\<close>, although \<^verbatim>\<open>"B" < "a"\<close>.  And rank 0 is sorted as the number 10^12, not
  as infinity: an unranked record is written before a record of rank 2000000000000, a rank
  that \<^verbatim>\<open>_clean_int\<close> gives for the cell \<^verbatim>\<open>2e12\<close>.
\<close>

theorem save_order_counterexample:
  "save_rows store_case = [mk_obj ''a'' 1 1 [] 0, mk_obj ''B'' 2 1 [] 1] \<and>
   rank (mk_obj ''a'' 1 1 [] 0) = rank (mk_obj ''B'' 2 1 [] 1) \<and>
   name (mk_obj ''B'' 2 1 [] 1) < name (mk_obj ''a'' 1 1 [] 0) \<and>
   save_rows store_sentinel = [mk_obj ''U'' 1 0 [] 0, mk_obj ''V'' 2 2000000000000 [] 1] \<and>
   clean_int (PyStr ''2e12'') = 2000000000000 \<and>
   data_file (save_data store_sentinel world_simple) =
     Some [[''country'', ''ppp'', ''rank''], [''U'', ''1'', ''0''], [''V'', ''2'', ''2000000000000'']]"
proof -
  have 1: "save_rows store_case = [mk_obj ''a'' 1 1 [] 0, mk_obj ''B'' 2 1 [] 1]"
    by (simp add: save_rows_def store_case_def mk_obj_def dedupe_key_def sort_rank_def sort_key_def
      string_eval order_eval)
  have 2: "rank (mk_obj ''a'' 1 1 [] 0) = rank (mk_obj ''B'' 2 1 [] 1)"
    by (simp add: mk_obj_def)
  have 3: "name (mk_obj ''B'' 2 1 [] 1) < name (mk_obj ''a'' 1 1 [] 0)"
    by (simp add: mk_obj_def order_eval)
  have 4: "save_rows store_sentinel = [mk_obj ''U'' 1 0 [] 0, mk_obj ''V'' 2 2000000000000 [] 1]"
    by (simp add: save_rows_def store_sentinel_def mk_obj_def dedupe_key_def sort_rank_def sort_key_def
      string_eval order_eval)
  have 5: "clean_int (PyStr ''2e12'') = 2000000000000"
    by (simp add: clean_int_def py_str_def py_int_def string_eval float_eval)
  have 6: "data_file (save_data store_sentinel world_simple) =
     Some [[''country'', ''ppp'', ''rank''], [''U'', ''1'', ''0''], [''V'', ''2'', ''2000000000000'']]"
    unfolding save_data_def 4
    by (simp add: world_simple_def file_eval simple_row_def mk_obj_def format_eval)
  from 1 2 3 4 5 6 show ?thesis by (intro conjI)
qed

text \<open>
  C8, amended: \<^verbatim>\<open>save_data\<close> writes the header and one row for each record of \<open>save_rows\<close>.
  These records have pairwise different keys, the key of a record being its normalised
  name, or its normalised slug when that name is empty; every written record is the first
  one, in the order of iteration, that has its key, and every record with a non-empty key
  has its key represented.  They are in ascending order of the rank, with 10^12 standing
  for the rank 0, and among equal ranks in ascending order of the normalised (trimmed,
  lower-cased) name; hence before an unranked record come only records ranked 10^12 or
  lower, and after it only unranked records or records ranked 10^12 or higher.
\<close>

theorem save_data_sorted_unique:
  "data_file (save_data c w) =
     Some (current_fieldnames (current_schema w) # map (write_row (current_schema w)) (save_rows c)) \<and>
   distinct (map dedupe_key (save_rows c)) \<and>
   (\<forall>v\<in>set (save_rows c).
      dedupe_key v \<noteq> [] \<and>
      dedupe_key v = (if norm_str (name v) \<noteq> [] then norm_str (name v) else norm_str (slug v)) \<and>
      (\<exists>pre post. map snd c = pre @ v # post \<and> (\<forall>x\<in>set pre. dedupe_key x \<noteq> dedupe_key v))) \<and>
   (\<forall>x\<in>set (map snd c). dedupe_key x \<noteq> [] \<longrightarrow> (\<exists>v\<in>set (save_rows c). dedupe_key v = dedupe_key x)) \<and>
   sorted_wrt (\<lambda>x y. (if rank x \<noteq> 0 then rank x else 10 ^ 12) < (if rank y \<noteq> 0 then rank y else 10 ^ 12) \<or>
                     (if rank x \<noteq> 0 then rank x else 10 ^ 12) = (if rank y \<noteq> 0 then rank y else 10 ^ 12) \<and>
                     norm_str (name x) \<le> norm_str (name y))
     (save_rows c) \<and>
   (\<forall>pre u post. save_rows c = pre @ u # post \<and> rank u = 0 \<longrightarrow>
      (\<forall>x\<in>set pre. rank x \<le> 10 ^ 12) \<and> (\<forall>x\<in>set post. rank x = 0 \<or> 10 ^ 12 \<le> rank x))"
proof -
  define r where "r = unique_loop (map snd c) []"
  have rows: "save_rows c = sort_key sort_rank (map snd r)" by (simp add: save_rows_def r_def)
  have r: "unique_loop (map snd c) [] = r" by (simp add: r_def)
  note n = unique_loop_Nil [OF r]
  have keys: "map fst r = map dedupe_key (map snd r)"
    by (rule unique_keys [OF r])
  have 1: "data_file (save_data c w) =
     Some (current_fieldnames (current_schema w) # map (write_row (current_schema w)) (save_rows c))"
    by (simp add: save_data_def)
  have 2: "distinct (map dedupe_key (save_rows c))"
    using n(2) unfolding keys rows by (simp only: distinct_map_sort)
  have 3: "\<forall>v\<in>set (save_rows c).
      dedupe_key v \<noteq> [] \<and>
      dedupe_key v = (if norm_str (name v) \<noteq> [] then norm_str (name v) else norm_str (slug v)) \<and>
      (\<exists>pre post. map snd c = pre @ v # post \<and> (\<forall>x\<in>set pre. dedupe_key x \<noteq> dedupe_key v))"
  proof
    fix v assume "v \<in> set (save_rows c)"
    then have "v \<in> snd ` set r" unfolding rows by simp
    then obtain k where "(k, v) \<in> set r" by force
    with n(1) have "k = dedupe_key v \<and> k \<noteq> [] \<and>
              (\<exists>pre post. map snd c = pre @ v # post \<and> (\<forall>x\<in>set pre. dedupe_key x \<noteq> k))" by fast
    then have "dedupe_key v \<noteq> [] \<and>
      (\<exists>pre post. map snd c = pre @ v # post \<and> (\<forall>x\<in>set pre. dedupe_key x \<noteq> dedupe_key v))" by fast
    moreover have "dedupe_key v = (if norm_str (name v) \<noteq> [] then norm_str (name v) else norm_str (slug v))"
      by (simp add: dedupe_key_def)
    ultimately show "dedupe_key v \<noteq> [] \<and>
      dedupe_key v = (if norm_str (name v) \<noteq> [] then norm_str (name v) else norm_str (slug v)) \<and>
      (\<exists>pre post. map snd c = pre @ v # post \<and> (\<forall>x\<in>set pre. dedupe_key x \<noteq> dedupe_key v))"
      by (intro conjI) (elim conjE, assumption)+
  qed
  have 4: "\<forall>x\<in>set (map snd c). dedupe_key x \<noteq> [] \<longrightarrow> (\<exists>v\<in>set (save_rows c). dedupe_key v = dedupe_key x)"
  proof (intro ballI impI)
    fix x assume "x \<in> set (map snd c)" "dedupe_key x \<noteq> []"
    with n(3) have "dedupe_key x \<in> fst ` set r" by blast
    then have "dedupe_key x \<in> set (map fst r)" by simp
    then have "dedupe_key x \<in> set (map dedupe_key (map snd r))" unfolding keys .
    then have "dedupe_key x \<in> dedupe_key ` set (map snd r)" by (simp only: set_map)
    then obtain v where "v \<in> set (map snd r)" "dedupe_key v = dedupe_key x" by force
    then have "v \<in> set (save_rows c) \<and> dedupe_key v = dedupe_key x" unfolding rows by simp
    then show "\<exists>v\<in>set (save_rows c). dedupe_key v = dedupe_key x" by blast
  qed
  have "sorted (map sort_rank (save_rows c))" unfolding rows by (rule sorted_sort_key)
  then have s: "sorted_wrt (\<lambda>x y. sort_rank x \<le> sort_rank y) (save_rows c)"
    by (simp only: sorted_map)
  have rel: "(if rank x \<noteq> 0 then rank x else 10 ^ 12) < (if rank y \<noteq> 0 then rank y else 10 ^ 12) \<or>
                     (if rank x \<noteq> 0 then rank x else 10 ^ 12) = (if rank y \<noteq> 0 then rank y else 10 ^ 12) \<and>
                     norm_str (name x) \<le> norm_str (name y)"
    if "sort_rank x \<le> sort_rank y" for x y :: obj
  proof -
    define a where "a = (if rank x \<noteq> 0 then rank x else 10 ^ 12)"
    define b where "b = (if rank y \<noteq> 0 then rank y else 10 ^ 12)"
    from that have "(a, norm_str (name x)) \<le> (b, norm_str (name y))"
      by (simp only: sort_rank_def a_def b_def)
    then have "a < b \<or> a = b \<and> norm_str (name x) \<le> norm_str (name y)"
      by (auto simp: less_eq_prod_def)
    then show ?thesis by (simp only: a_def b_def)
  qed
  have 5: "sorted_wrt (\<lambda>x y. (if rank x \<noteq> 0 then rank x else 10 ^ 12) < (if rank y \<noteq> 0 then rank y else 10 ^ 12) \<or>
                     (if rank x \<noteq> 0 then rank x else 10 ^ 12) = (if rank y \<noteq> 0 then rank y else 10 ^ 12) \<and>
                     norm_str (name x) \<le> norm_str (name y))
     (save_rows c)"
    by (rule sorted_wrt_mono_rel [OF _ s]) (rule rel)
  have 6: "\<forall>pre u post. save_rows c = pre @ u # post \<and> rank u = 0 \<longrightarrow>
      (\<forall>x\<in>set pre. rank x \<le> 10 ^ 12) \<and> (\<forall>x\<in>set post. rank x = 0 \<or> 10 ^ 12 \<le> rank x)"
  proof (intro allI impI)
    fix pre u post
    assume a: "save_rows c = pre @ u # post \<and> rank u = 0"
    from s a have srt: "sorted_wrt (\<lambda>x y. sort_rank x \<le> sort_rank y) (pre @ u # post)" by simp
    from a have u0: "rank u = 0" by simp
    show "(\<forall>x\<in>set pre. rank x \<le> 10 ^ 12) \<and> (\<forall>x\<in>set post. rank x = 0 \<or> 10 ^ 12 \<le> rank x)"
      by (rule unranked_place [OF srt u0])
  qed
  from 1 2 3 4 5 6 show ?thesis by (intro conjI)
qed

text \<open>A store with ties, a duplicate name and an unranked record, written under each layout.\<close>

theorem save_data_sorted_unique_witness:
  "data_file (save_data store_ranks world_cia) =
     Some [[''name'', ''slug'', ''value'', ''date_of_information'', ''ranking'', ''region''],
           [''A'', [], ''100'', [], ''1'', []], [''c'', ''cc'', ''7'', [], ''1'', []],
           [''B'', [], ''250'', [], ''2'', []], [''Zed'', [], ''9'', [], ''0'', []]] \<and>
   data_file (save_data store_ranks world_simple) =
     Some [[''country'', ''ppp'', ''rank''],
           [''A'', ''100'', ''1''], [''c'', ''7'', ''1''], [''B'', ''250'', ''2''], [''Zed'', ''9'', ''0'']] \<and>
   map name (save_rows store_ranks) = [''A'', ''c'', ''B'', ''Zed''] \<and>
   distinct (map dedupe_key (save_rows store_ranks))"
proof -
  have d: "data_file (save_data store_ranks world_cia) =
     Some (current_fieldnames (current_schema world_cia) # map (write_row (current_schema world_cia)) (save_rows store_ranks))"
    and u: "distinct (map dedupe_key (save_rows store_ranks))"
    using save_data_sorted_unique [of store_ranks world_cia] by blast+
  have e: "data_file (save_data store_ranks world_simple) =
     Some (current_fieldnames (current_schema world_simple) # map (write_row (current_schema world_simple)) (save_rows store_ranks))"
    using save_data_sorted_unique [of store_ranks world_simple] by blast
  have 1: "data_file (save_data store_ranks world_cia) =
     Some [[''name'', ''slug'', ''value'', ''date_of_information'', ''ranking'', ''region''],
           [''A'', [], ''100'', [], ''1'', []], [''c'', ''cc'', ''7'', [], ''1'', []],
           [''B'', [], ''250'', [], ''2'', []], [''Zed'', [], ''9'', [], ''0'', []]]"
    unfolding d save_rows_ranks
    by (simp add: world_cia_def cia_schema_def file_eval cia_row_def mk_obj_def format_eval)
  have 2: "data_file (save_data store_ranks world_simple) =
     Some [[''country'', ''ppp'', ''rank''],
           [''A'', ''100'', ''1''], [''c'', ''7'', ''1''], [''B'', ''250'', ''2''], [''Zed'', ''9'', ''0'']]"
    unfolding e save_rows_ranks
    by (simp add: world_simple_def file_eval simple_row_def mk_obj_def format_eval)
  have 3: "map name (save_rows store_ranks) = [''A'', ''c'', ''B'', ''Zed'']"
    unfolding save_rows_ranks by (simp add: mk_obj_def)
  from 1 2 3 u show ?thesis by (intro conjI)
qed

section \<open>Load, save, reload\<close>

lemma digit_char_is_digit: "d < 10 \<Longrightarrow> is_digit (digit_char d)"
proof -
  assume "d < 10"
  then have "d = 0 \<or> d = 1 \<or> d = 2 \<or> d = 3 \<or> d = 4 \<or> d = 5 \<or> d = 6 \<or> d = 7 \<or> d = 8 \<or> d = 9"
    by arith
  then show ?thesis
    by (elim disjE) (simp_all add: is_digit_def digit_char_def char_of_def bit_Suc_0_iff)
qed

lemma digit_val_digit_char: "d < 10 \<Longrightarrow> digit_val (digit_char d) = d"
  by (simp add: digit_val_def digit_char_def)

lemma digits_val_snoc: "digits_val (xs @ [c]) = 10 * digits_val xs + digit_val c"
  by (simp add: digits_val_def)

lemma digits_of_digits: "list_all is_digit (digits_of n)"
proof (induction n rule: digits_of.induct)
  case (1 n)
  show ?case
  proof (cases "n < 10")
    case True
    then show ?thesis by (simp add: digits_of_small digit_char_is_digit)
  next
    case False
    then have "list_all is_digit (digits_of (n div 10))" using 1 by simp
    moreover have "is_digit (digit_char (n mod 10))" by (rule digit_char_is_digit) simp
    ultimately show ?thesis using False by (simp add: digits_of_large)
  qed
qed

lemma digits_of_nonempty: "digits_of n \<noteq> []"
  by (cases "n < 10") (simp_all add: digits_of_small digits_of_large)

lemma digits_val_digits_of: "digits_val (digits_of n) = n"
proof (induction n rule: digits_of.induct)
  case (1 n)
  show ?case
  proof (cases "n < 10")
    case True
    then show ?thesis by (simp add: digits_of_small digits_val_def digit_val_digit_char)
  next
    case False
    then have "digits_val (digits_of (n div 10)) = n div 10" using 1 by simp
    then show ?thesis using False
      by (simp add: digits_of_large digits_val_snoc digit_val_digit_char)
  qed
qed

lemma is_digit_facts:
  assumes "is_digit c"
  shows "\<not> is_space c" "\<not> float_space c" "num_class c" "keep_class c" "lower_char c = c"
    "c \<noteq> CHR ''-''" "c \<noteq> CHR ''+''" "c \<noteq> CHR ''.''" "c \<noteq> CHR ''e''" "c \<noteq> CHR ''E''"
    "c \<noteq> CHR ''_''" "c \<noteq> CHR '',''" "c \<noteq> CHR '' ''" "c \<noteq> CHR ''$''" "c \<noteq> CHR ''i''" "c \<noteq> CHR ''n''"
  using assms
  by (auto simp: is_digit_def is_space_def float_space_def num_class_def keep_class_def lower_char_def)

lemma dropWhile_none: "\<forall>c\<in>set s. \<not> P c \<Longrightarrow> dropWhile P s = s"
  by (cases s) auto

lemma strip_like_id: "\<forall>c\<in>set s. \<not> P c \<Longrightarrow> rev (dropWhile P (rev (dropWhile P s))) = s"
  by (simp add: dropWhile_none)

lemma split_at_none:
  assumes "\<forall>c\<in>set s. \<not> P c"
  shows "split_at P s = (s, None)"
proof -
  have "dropWhile (\<lambda>c. \<not> P c) s = []" using assms by (simp add: dropWhile_eq_Nil_conv)
  then show ?thesis unfolding split_at_def by (simp only: list.case)
qed

lemma digitpart_digits: "list_all is_digit ds \<Longrightarrow> ds \<noteq> [] \<Longrightarrow> digitpart ds"
proof (induction ds rule: digitpart.induct)
  case 1 then show ?case by simp
next
  case (2 c) then show ?case by simp
next
  case (3 c d cs)
  then have "d \<noteq> CHR ''_''" using is_digit_facts(11) by auto
  with 3 show ?case by simp
qed

lemma digits_set:
  assumes "list_all is_digit ds" and "c \<in> set ds"
  shows "is_digit c"
  using assms by (simp add: list_all_iff)

lemma parse_number_digits:
  assumes "list_all is_digit ds" and "ds \<noteq> []"
  shows "parse_number ds = Some (digits_val ds, 0)"
proof -
  have "\<forall>c\<in>set ds. \<not> c = CHR ''.''" using digits_set [OF assms(1)] is_digit_facts(8) by blast
  then have s: "split_at (\<lambda>c. c = CHR ''.'') ds = (ds, None)" by (rule split_at_none)
  have "\<forall>c\<in>set ds. c \<noteq> CHR ''_''" using digits_set [OF assms(1)] is_digit_facts(11) by blast
  then have u: "no_underscores ds = ds" by (simp add: no_underscores_def)
  show ?thesis using s u digitpart_digits [OF assms] by (simp add: parse_number_def)
qed

lemma lower_digits: "list_all is_digit ds \<Longrightarrow> lower ds = ds"
  unfolding lower_def by (induction ds) (simp_all add: is_digit_facts(5))

lemma digits_not_special:
  assumes "list_all is_digit ds" and "ds \<noteq> []"
  shows "lower ds \<notin> set [''inf'', ''infinity'', ''nan'']"
proof -
  obtain d r where ds: "ds = d # r" using assms(2) by (cases ds) auto
  then have "is_digit d" using assms(1) by simp
  then have "d \<noteq> CHR ''i''" "d \<noteq> CHR ''n''" by (rule is_digit_facts)+
  moreover have "lower ds = d # r" using lower_digits [OF assms(1)] ds by simp
  ultimately show ?thesis by simp
qed

lemma py_float_body:
  assumes "list_all is_digit ds" and "ds \<noteq> []" and "float_strip s = s" and "split_sign s = (neg, ds)"
  shows "py_float s = mk_float neg (of_nat (digits_val ds))"
proof -
  have "\<forall>c\<in>set ds. \<not> (c = CHR ''e'' \<or> c = CHR ''E'')"
    using digits_set [OF assms(1)] is_digit_facts(9,10) by blast
  then have e: "split_at (\<lambda>c. c = CHR ''e'' \<or> c = CHR ''E'') ds = (ds, None)" by (rule split_at_none)
  have sp: "lower ds \<notin> set [''inf'', ''infinity'', ''nan'']" by (rule digits_not_special [OF assms(1,2)])
  have sc: "scale10 (digits_val ds) (0 - int 0) = of_nat (digits_val ds)" by (simp add: scale10_def)
  show ?thesis
    unfolding py_float_def assms(3,4) using sp e parse_number_digits [OF assms(1,2)] sc
    by simp
qed

lemma py_float_digits:
  assumes "list_all is_digit ds" and "ds \<noteq> []"
  shows "py_float ds = mk_float False (of_nat (digits_val ds))"
proof (rule py_float_body [OF assms])
  have "\<forall>c\<in>set ds. \<not> float_space c" using digits_set [OF assms(1)] is_digit_facts(2) by blast
  then show "float_strip ds = ds" unfolding float_strip_def by (rule strip_like_id)
  obtain d r where ds: "ds = d # r" using assms(2) by (cases ds) auto
  then have "is_digit d" using assms(1) by simp
  then have "d \<noteq> CHR ''-''" "d \<noteq> CHR ''+''" by (rule is_digit_facts)+
  then show "split_sign ds = (False, ds)" unfolding ds by (simp add: split_sign_def)
qed

lemma py_float_minus_digits:
  assumes "list_all is_digit ds" and "ds \<noteq> []"
  shows "py_float (CHR ''-'' # ds) = mk_float True (of_nat (digits_val ds))"
proof (rule py_float_body [OF assms])
  have "\<not> float_space CHR ''-''" by (simp add: float_space_def)
  moreover have "\<forall>c\<in>set ds. \<not> float_space c" using digits_set [OF assms(1)] is_digit_facts(2) by blast
  ultimately have "\<forall>c\<in>set (CHR ''-'' # ds). \<not> float_space c" by simp
  then show "float_strip (CHR ''-'' # ds) = CHR ''-'' # ds" unfolding float_strip_def by (rule strip_like_id)
  show "split_sign (CHR ''-'' # ds) = (True, ds)" by (simp add: split_sign_def)
qed

lemma py_float_str_int:
  assumes "\<bar>of_int i\<bar> < float_overflow"
  shows "py_float (str_int i) = Decimal (of_int i)"
proof (cases "i < 0")
  case True
  have "py_float (str_int i) = mk_float True (of_nat (digits_val (digits_of (nat (- i)))))"
    using True py_float_minus_digits [OF digits_of_digits digits_of_nonempty] by (simp add: str_int_def)
  also have "\<dots> = mk_float True (of_nat (nat (- i)))" by (simp only: digits_val_digits_of)
  also have "of_nat (nat (- i)) = (- of_int i :: rat)" using True by simp
  finally show ?thesis using assms True by (simp add: mk_float_def)
next
  case False
  have "py_float (str_int i) = mk_float False (of_nat (digits_val (digits_of (nat i))))"
    using False py_float_digits [OF digits_of_digits digits_of_nonempty] by (simp add: str_int_def)
  also have "\<dots> = mk_float False (of_nat (nat i))" by (simp only: digits_val_digits_of)
  also have "of_nat (nat i) = (of_int i :: rat)" using False by simp
  finally show ?thesis using assms False by (simp add: mk_float_def)
qed

lemma py_int_of_int: "py_int (of_int i) = i"
  by (simp add: py_int_def)

lemma py_int_bound: "\<bar>of_int (py_int p) :: rat\<bar> \<le> \<bar>p\<bar>"
proof (cases "0 \<le> p")
  case True
  then have "0 \<le> \<lfloor>p\<rfloor>" by simp
  then have "\<bar>of_int \<lfloor>p\<rfloor> :: rat\<bar> = of_int \<lfloor>p\<rfloor>" by simp
  also have "\<dots> \<le> p" by simp
  finally show ?thesis using True by (simp add: py_int_def)
next
  case False
  then have "\<lceil>p\<rceil> \<le> 0" by (simp add: ceiling_le_zero)
  then have "\<bar>of_int \<lceil>p\<rceil> :: rat\<bar> = - of_int \<lceil>p\<rceil>" by simp
  also have "\<dots> \<le> - p" by simp
  finally show ?thesis using False by (simp add: py_int_def)
qed

lemma str_int_chars: "c \<in> set (str_int i) \<Longrightarrow> is_digit c \<or> c = CHR ''-''"
  using digits_set [OF digits_of_digits] by (auto simp: str_int_def split: if_splits)

lemma str_int_nonempty: "str_int i \<noteq> []"
  by (simp add: str_int_def digits_of_nonempty)

lemma minus_facts: "\<not> is_space CHR ''-''" "num_class CHR ''-''" "CHR ''-'' \<notin> set '', $''"
  by (simp_all add: is_space_def num_class_def)

lemma comma_facts: "\<not> is_space CHR '',''" "num_class CHR '',''"
  by (simp_all add: is_space_def num_class_def)

lemma strip_str_int: "strip (str_int i) = str_int i"
  unfolding strip_def
proof (rule strip_like_id)
  show "\<forall>c\<in>set (str_int i). \<not> is_space c"
    using str_int_chars is_digit_facts(1) minus_facts(1) by blast
qed

lemma clean_int_str_int:
  assumes "\<bar>of_int r :: rat\<bar> < float_overflow"
  shows "clean_int (PyStr (str_int r)) = r"
  by (simp add: clean_int_def py_str_def strip_str_int py_float_str_int [OF assms] py_int_of_int)

lemma filter_str_int: "filter (\<lambda>c. c \<notin> set '', $'') (str_int i) = str_int i"
proof -
  have "\<forall>c\<in>set (str_int i). c \<notin> set '', $''"
  proof
    fix c assume "c \<in> set (str_int i)"
    then have "is_digit c \<or> c = CHR ''-''" by (rule str_int_chars)
    then show "c \<notin> set '', $''"
      using is_digit_facts(12,13,14) [of c] minus_facts(3) by auto
  qed
  then show ?thesis by (simp add: filter_id_conv)
qed

lemma num_class_str_int: "list_all num_class (str_int i)"
  unfolding list_all_iff using str_int_chars is_digit_facts(3) minus_facts(2) by blast

lemma clean_number_text:
  assumes "strip s = s" and "s \<noteq> []" and "list_all num_class s"
    and "py_float (filter (\<lambda>c. c \<notin> set '', $'') s) = Decimal v"
  shows "clean_number (PyStr s) = Inr v"
  using assms by (simp add: clean_number_def str_or_empty_def Let_def)

lemma clean_number_str_int:
  assumes "\<bar>of_int n :: rat\<bar> < float_overflow"
  shows "clean_number (PyStr (str_int n)) = Inr (of_int n)"
proof (rule clean_number_text [OF strip_str_int str_int_nonempty num_class_str_int])
  show "py_float (filter (\<lambda>c. c \<notin> set '', $'') (str_int n)) = Decimal (of_int n)"
    by (simp only: filter_str_int py_float_str_int [OF assms])
qed

lemma set_group3: "set (group3 xs) \<subseteq> insert CHR '','' (set xs)"
  by (induction xs rule: group3.induct) auto

lemma filter_group3: "\<not> P CHR '','' \<Longrightarrow> filter P (group3 xs) = filter P xs"
  by (induction xs rule: group3.induct) auto

lemma group3_nonempty: "xs \<noteq> [] \<Longrightarrow> group3 xs \<noteq> []"
  by (induction xs rule: group3.induct) auto

lemma format_comma_chars: "c \<in> set (format_comma i) \<Longrightarrow> is_digit c \<or> c = CHR ''-'' \<or> c = CHR '',''"
proof -
  assume c: "c \<in> set (format_comma i)"
  have "c \<in> set (digits_of n) \<or> c = CHR '',''" if "c \<in> set (group3 (rev (digits_of n)))" for n
    using that set_group3 [of "rev (digits_of n)"] by auto
  then show ?thesis using c digits_set [OF digits_of_digits]
    by (auto simp: format_comma_def split: if_splits)
qed

lemma format_comma_nonempty: "format_comma i \<noteq> []"
  by (simp add: format_comma_def group3_nonempty digits_of_nonempty)

lemma strip_format_comma: "strip (format_comma i) = format_comma i"
  unfolding strip_def
proof (rule strip_like_id)
  show "\<forall>c\<in>set (format_comma i). \<not> is_space c"
    using format_comma_chars is_digit_facts(1) minus_facts(1) comma_facts(1) by blast
qed

lemma num_class_format_comma: "list_all num_class (format_comma i)"
  unfolding list_all_iff using format_comma_chars is_digit_facts(3) minus_facts(2) comma_facts(2) by blast

lemma filter_rev_group3: "\<not> P CHR '','' \<Longrightarrow> filter P (rev (group3 (rev ds))) = filter P ds"
proof -
  assume "\<not> P CHR '',''"
  then have "filter P (group3 (rev ds)) = filter P (rev ds)" by (rule filter_group3)
  then have "rev (filter P (group3 (rev ds))) = rev (filter P (rev ds))" by (rule arg_cong)
  then show ?thesis by (simp only: rev_filter rev_rev_ident)
qed

lemma filter_format_comma_gen:
  "\<not> P CHR '','' \<Longrightarrow> filter P (format_comma i) = filter P (str_int i)"
  by (simp add: format_comma_def str_int_def filter_rev_group3)

lemma filter_format_comma: "filter (\<lambda>c. c \<notin> set '', $'') (format_comma i) = str_int i"
proof -
  have "filter (\<lambda>c. c \<notin> set '', $'') (format_comma i) = filter (\<lambda>c. c \<notin> set '', $'') (str_int i)"
    by (rule filter_format_comma_gen) simp
  then show ?thesis by (simp only: filter_str_int)
qed

lemma clean_number_format_comma:
  assumes "\<bar>of_int n :: rat\<bar> < float_overflow"
  shows "clean_number (PyStr (format_comma n)) = Inr (of_int n)"
proof (rule clean_number_text [OF strip_format_comma format_comma_nonempty num_class_format_comma])
  show "py_float (filter (\<lambda>c. c \<notin> set '', $'') (format_comma n)) = Decimal (of_int n)"
    by (simp only: filter_format_comma py_float_str_int [OF assms])
qed

lemma clean_number_zero: "clean_number (PyStr ''0'') = Inr 0"
  by (simp add: clean_eval string_eval float_eval)

lemma clean_number_bound:
  assumes "clean_number (PyStr s) = Inr v"
  shows "\<bar>v\<bar> < float_overflow"
proof -
  have pos: "0 < float_overflow" by (simp add: float_overflow_def)
  have mk: "\<bar>v\<bar> < float_overflow" if "mk_float neg x = Decimal v" "0 \<le> x" for neg x
    using that by (auto simp: mk_float_def split: if_splits)
  have sc: "0 \<le> scale10 d e" for d e by (simp add: scale10_def)
  have pf: "\<bar>v\<bar> < float_overflow" if "py_float t = Decimal v" for t
    using that mk sc
    by (auto simp: py_float_def split: prod.splits if_splits option.splits)
  have fb: "\<bar>v\<bar> < float_overflow" if "clean_fallback t = Inr v" for t
    using that pf pos by (auto simp: clean_fallback_def Let_def split: if_splits float_parse.splits)
  show ?thesis
    using assms pf fb
    by (auto simp: clean_number_def Let_def str_or_empty_def split: if_splits float_parse.splits)
qed

lemma clean_int_bound: "\<bar>of_int (clean_int t) :: rat\<bar> < float_overflow"
proof -
  have pos: "0 < float_overflow" by (simp add: float_overflow_def)
  have mk: "\<bar>v\<bar> < float_overflow" if "mk_float neg x = Decimal v" "0 \<le> x" for neg x v
    using that by (auto simp: mk_float_def split: if_splits)
  have sc: "0 \<le> scale10 d e" for d e by (simp add: scale10_def)
  have pf: "\<bar>v\<bar> < float_overflow" if "py_float t = Decimal v" for t v
    using that mk sc
    by (auto simp: py_float_def split: prod.splits if_splits option.splits)
  show ?thesis
  proof (cases "py_float (strip (py_str t))")
    case (Decimal v)
    have "\<bar>of_int (py_int v) :: rat\<bar> \<le> \<bar>v\<bar>" by (rule py_int_bound)
    also have "\<dots> < float_overflow" by (rule pf [OF Decimal])
    finally show ?thesis using Decimal by (simp add: clean_int_def)
  qed (simp_all add: clean_int_def pos)
qed

lemma cia_row_gets:
  "get_or (dict_row cia_fields (cia_row v)) [''name'', ''Name''] = name v"
  "get_or (dict_row cia_fields (cia_row v)) [''slug'', ''Slug''] = slug v"
  "get_or (dict_row cia_fields (cia_row v)) [''date_of_information'', ''Date_of_information''] = date v"
  "get_or (dict_row cia_fields (cia_row v)) [''region'', ''Region''] = region v"
  "get_or (dict_row cia_fields (cia_row v)) [''ranking'', ''Ranking''] = str_int (rank v)"
  "get_or (dict_row cia_fields (cia_row v)) [''value'', ''Value''] =
     (if ppp v \<noteq> 0 then format_comma (py_int (ppp v)) else ''0'')"
  by (simp_all add: dict_row_def cia_fields_def cia_row_def dict_get_def truthy_def str_or_empty_def
      str_int_nonempty format_comma_nonempty)

lemma simple_row_gets:
  "get_or (dict_row simple_fields (simple_row v)) [''country'', ''Country'', ''name''] = name v"
  "get_or (dict_row simple_fields (simple_row v)) [''rank'', ''Rank'', ''ranking''] = str_int (rank v)"
  "get_or (dict_row simple_fields (simple_row v)) [''ppp'', ''PPP'', ''value'', ''PPP (Int$)''] = str_int (py_int (ppp v))"
  by (simp_all add: dict_row_def simple_fields_def simple_row_def dict_get_def truthy_def str_or_empty_def
      str_int_nonempty)

lemma trunc_in_range: "\<bar>p\<bar> < float_overflow \<Longrightarrow> \<bar>of_int (py_int p) :: rat\<bar> < float_overflow"
  using py_int_bound [of p] by simp

lemma cia_entry_written:
  assumes "in_range v"
  shows "cia_entry (dict_row cia_fields (cia_row v)) a = Inr (reloaded True v a)"
proof -
  have p: "\<bar>of_int (py_int (ppp v)) :: rat\<bar> < float_overflow"
    using assms by (simp add: in_range_def trunc_in_range)
  have r: "\<bar>of_int (rank v) :: rat\<bar> < float_overflow" using assms by (simp add: in_range_def)
  have val: "clean_number (PyStr (if ppp v \<noteq> 0 then format_comma (py_int (ppp v)) else ''0'')) =
      Inr (of_int (py_int (ppp v)))"
  proof (cases "ppp v = 0")
    case True
    then show ?thesis by (simp add: clean_number_zero py_int_def)
  next
    case False
    then show ?thesis by (simp add: clean_number_format_comma [OF p])
  qed
  show ?thesis
    by (simp only: cia_entry_def cia_row_gets val clean_int_str_int [OF r] reloaded_def sum.case if_True)
qed

lemma simple_entry_written:
  assumes "in_range v"
  shows "simple_entry (dict_row simple_fields (simple_row v)) a = Inr (reloaded False v a)"
proof -
  have p: "\<bar>of_int (py_int (ppp v)) :: rat\<bar> < float_overflow"
    using assms by (simp add: in_range_def trunc_in_range)
  have r: "\<bar>of_int (rank v) :: rat\<bar> < float_overflow" using assms by (simp add: in_range_def)
  show ?thesis
    by (simp only: simple_entry_def simple_row_gets clean_number_str_int [OF p] clean_int_str_int [OF r]
        reloaded_def sum.case if_False)
qed

lemma set_index_keys: "set (make_index_keys h (name v) (slug v)) = index_keys v"
  by (simp add: set_make_index_keys index_keys_def)

lemma dedupe_key_in_index_keys: "dedupe_key v \<noteq> [] \<Longrightarrow> dedupe_key v \<in> index_keys v"
  using norm_str_Nil by (auto simp: dedupe_key_def index_keys_def split: if_splits)

lemma triple_reloaded: "triple (reloaded cia v a) = (strip (name v), of_int (py_int (ppp v)), rank v)"
  by (simp add: triple_def reloaded_def)

lemma values_update_fresh:
  assumes "k \<notin> fst ` set c"
  shows "set (map snd (AList.update k e c)) = insert e (set (map snd c))"
    and "fst ` set (AList.update k e c) = insert k (fst ` set c)"
  by (simp_all add: update_fresh [OF assms])

lemma load_simple_written:
  assumes "\<forall>v\<in>set vs. in_range v"
    and "distinct vs"
    and "\<forall>u\<in>set vs. \<forall>v\<in>set vs. u \<noteq> v \<longrightarrow> norm_str (name u) \<noteq> norm_str (name v)"
    and "\<forall>v\<in>set vs. norm_str (name v) \<notin> fst ` set c"
  shows "\<exists>c' a'. load_simple (map (\<lambda>v. dict_row simple_fields (simple_row v)) vs) c a = Inr (c', a') \<and>
           triple ` set (map snd c') =
             triple ` set (map snd c) \<union> (\<lambda>v. (strip (name v), of_int (py_int (ppp v)), rank v)) ` set vs"
  using assms
proof (induction vs arbitrary: c a)
  case Nil
  then show ?case by simp
next
  case (Cons v vs)
  let ?e = "reloaded False v a"
  let ?c1 = "AList.update (norm_str (name v)) ?e c"
  have rng: "in_range v" using Cons.prems(1) by simp
  have fresh: "norm_str (name v) \<notin> fst ` set c" using Cons.prems(4) by simp
  note vals = values_update_fresh [OF fresh, of ?e]
  have 1: "\<forall>v\<in>set vs. in_range v" using Cons.prems(1) by simp
  have 2: "distinct vs" using Cons.prems(2) by simp
  have 3: "\<forall>u\<in>set vs. \<forall>v\<in>set vs. u \<noteq> v \<longrightarrow> norm_str (name u) \<noteq> norm_str (name v)"
    using Cons.prems(3) by simp
  have 4: "\<forall>u\<in>set vs. norm_str (name u) \<notin> fst ` set ?c1"
  proof
    fix u assume u: "u \<in> set vs"
    then have "u \<noteq> v" using Cons.prems(2) by auto
    then have "norm_str (name u) \<noteq> norm_str (name v)" using Cons.prems(3) u by simp
    moreover have "norm_str (name u) \<notin> fst ` set c" using Cons.prems(4) u by simp
    ultimately show "norm_str (name u) \<notin> fst ` set ?c1" unfolding vals(2) by simp
  qed
  from Cons.IH [OF 1 2 3 4, of "Suc a"] obtain c' a' where r:
    "load_simple (map (\<lambda>v. dict_row simple_fields (simple_row v)) vs) ?c1 (Suc a) = Inr (c', a')"
    "triple ` set (map snd c') =
       triple ` set (map snd ?c1) \<union> (\<lambda>v. (strip (name v), of_int (py_int (ppp v)), rank v)) ` set vs"
    by blast
  have step: "load_simple (map (\<lambda>v. dict_row simple_fields (simple_row v)) (v # vs)) c a = Inr (c', a')"
    using r(1) by (simp only: list.map load_simple.simps simple_entry_written [OF rng] simple_row_gets sum.case)
  have "triple ` set (map snd c') =
       triple ` set (map snd c) \<union> (\<lambda>v. (strip (name v), of_int (py_int (ppp v)), rank v)) ` set (v # vs)"
    unfolding r(2) vals(1) by (simp add: triple_reloaded insert_commute Un_commute Un_left_commute)
  with step show ?case by blast
qed

lemma cia_entry_ok: "cia_entry d a = Inr e \<Longrightarrow> loaded_ok e"
  by (auto simp: cia_entry_def loaded_ok_def in_range_def clean_number_bound clean_int_bound strip_strip
      split: sum.splits)

lemma simple_entry_ok:
  "simple_entry d a = Inr e \<Longrightarrow>
   loaded_ok e \<and> slug e = [] \<and> name e = strip (get_or d [''country'', ''Country'', ''name''])"
  by (auto simp: simple_entry_def loaded_ok_def in_range_def clean_number_bound clean_int_bound strip_strip
      split: sum.splits)

lemma values_update_subset: "set (map snd (AList.update k e c)) \<subseteq> insert e (set (map snd c))"
  by (induction c) auto

lemma values_index_entry_subset: "set (map snd (index_entry ks e c)) \<subseteq> insert e (set (map snd c))"
  unfolding index_entry_def
proof (induction ks arbitrary: c)
  case Nil show ?case by auto
next
  case (Cons k ks)
  have "set (map snd (foldl (\<lambda>c k. AList.update k e c) (AList.update k e c) ks)) \<subseteq>
        insert e (set (map snd (AList.update k e c)))" by (rule Cons.IH)
  also have "\<dots> \<subseteq> insert e (set (map snd c))" using values_update_subset [of k e c] by auto
  finally show ?case by simp
qed

lemma load_cia_private:
  assumes "\<forall>v\<in>set vs. in_range v \<and> dedupe_key v \<noteq> []"
    and "distinct vs"
    and "\<forall>u\<in>set vs. \<forall>v\<in>set vs. u \<noteq> v \<longrightarrow> dedupe_key u \<notin> index_keys v"
  shows "\<exists>c' a'. load_cia h (map (\<lambda>v. dict_row cia_fields (cia_row v)) vs) c a = Inr (c', a') \<and>
           (\<forall>k. k \<notin> \<Union> (index_keys ` set vs) \<longrightarrow> map_of c' k = map_of c k) \<and>
           (\<forall>v\<in>set vs. \<exists>e. map_of c' (dedupe_key v) = Some e \<and>
                             triple e = (strip (name v), of_int (py_int (ppp v)), rank v)) \<and>
           triple ` set (map snd c') \<subseteq>
             triple ` set (map snd c) \<union> (\<lambda>v. (strip (name v), of_int (py_int (ppp v)), rank v)) ` set vs"
  using assms
proof (induction vs arbitrary: c a)
  case Nil
  then show ?case by simp
next
  case (Cons v vs)
  let ?T = "\<lambda>v::obj. (strip (name v), of_int (py_int (ppp v)) :: rat, rank v)"
  let ?e = "reloaded True v a"
  let ?ks = "make_index_keys h (name v) (slug v)"
  let ?c1 = "index_entry ?ks ?e c"
  have rng: "in_range v" and dk: "dedupe_key v \<noteq> []" using Cons.prems(1) by simp_all
  have ks: "set ?ks = index_keys v" by (rule set_index_keys)
  have 1: "\<forall>v\<in>set vs. in_range v \<and> dedupe_key v \<noteq> []" using Cons.prems(1) by simp
  have 2: "distinct vs" using Cons.prems(2) by simp
  have 3: "\<forall>u\<in>set vs. \<forall>v\<in>set vs. u \<noteq> v \<longrightarrow> dedupe_key u \<notin> index_keys v"
    using Cons.prems(3) by simp
  from Cons.IH [OF 1 2 3, of ?c1 "Suc a"] obtain c' a' where all:
    "load_cia h (map (\<lambda>v. dict_row cia_fields (cia_row v)) vs) ?c1 (Suc a) = Inr (c', a') \<and>
     (\<forall>k. k \<notin> \<Union> (index_keys ` set vs) \<longrightarrow> map_of c' k = map_of ?c1 k) \<and>
     (\<forall>v\<in>set vs. \<exists>e. map_of c' (dedupe_key v) = Some e \<and> triple e = ?T v) \<and>
     triple ` set (map snd c') \<subseteq> triple ` set (map snd ?c1) \<union> ?T ` set vs"
    by blast
  note r = all [THEN conjunct1] all [THEN conjunct2, THEN conjunct1]
    all [THEN conjunct2, THEN conjunct2, THEN conjunct1] all [THEN conjunct2, THEN conjunct2, THEN conjunct2]
  have step: "load_cia h (map (\<lambda>v. dict_row cia_fields (cia_row v)) (v # vs)) c a = Inr (c', a')"
    using r(1) by (simp only: list.map load_cia.simps cia_entry_written [OF rng] cia_row_gets sum.case)
  have a: "\<forall>k. k \<notin> \<Union> (index_keys ` set (v # vs)) \<longrightarrow> map_of c' k = map_of c k"
  proof (intro allI impI)
    fix k assume k: "k \<notin> \<Union> (index_keys ` set (v # vs))"
    then have "k \<notin> \<Union> (index_keys ` set vs)" and kv: "k \<notin> set ?ks" unfolding ks by auto
    with r(2) have "map_of c' k = map_of ?c1 k" by blast
    also have "\<dots> = map_of c k" using kv by (simp add: map_of_index_entry)
    finally show "map_of c' k = map_of c k" .
  qed
  have own: "\<exists>e. map_of c' (dedupe_key v) = Some e \<and> triple e = ?T v"
  proof -
    have "dedupe_key v \<notin> index_keys u" if "u \<in> set vs" for u
    proof -
      from that Cons.prems(2) have "v \<noteq> u" by auto
      with Cons.prems(3) that show ?thesis by simp
    qed
    then have "dedupe_key v \<notin> \<Union> (index_keys ` set vs)" by blast
    with r(2) have "map_of c' (dedupe_key v) = map_of ?c1 (dedupe_key v)" by blast
    also have "\<dots> = Some ?e"
      using dedupe_key_in_index_keys [OF dk] ks by (simp add: map_of_index_entry)
    finally have "map_of c' (dedupe_key v) = Some ?e \<and> triple ?e = ?T v"
      by (simp add: triple_reloaded)
    then show ?thesis by blast
  qed
  have b: "\<forall>u\<in>set (v # vs). \<exists>e. map_of c' (dedupe_key u) = Some e \<and> triple e = ?T u"
    using own r(3) by simp
  have "set (map snd ?c1) \<subseteq> insert ?e (set (map snd c))" by (rule values_index_entry_subset)
  then have "triple ` set (map snd ?c1) \<subseteq> triple ` insert ?e (set (map snd c))" by (rule image_mono)
  then have "triple ` set (map snd ?c1) \<subseteq> insert (?T v) (triple ` set (map snd c))"
    by (simp only: image_insert triple_reloaded)
  with r(4) have c: "triple ` set (map snd c') \<subseteq> triple ` set (map snd c) \<union> ?T ` set (v # vs)"
    by auto
  from step a b c show ?case by blast
qed

lemma load_cia_ok:
  "load_cia h ds c a = Inr (c', a') \<Longrightarrow> \<forall>v\<in>set (map snd c). loaded_ok v \<Longrightarrow> \<forall>v\<in>set (map snd c'). loaded_ok v"
proof (induction ds arbitrary: c a)
  case Nil
  then show ?case by simp
next
  case (Cons d ds)
  from Cons.prems(1) obtain e where e: "cia_entry d a = Inr e"
    by (cases "cia_entry d a") simp_all
  let ?c1 = "index_entry (make_index_keys h (get_or d [''name'', ''Name'']) (get_or d [''slug'', ''Slug''])) e c"
  from Cons.prems(1) e have run: "load_cia h ds ?c1 (Suc a) = Inr (c', a')" by simp
  have "\<forall>v\<in>set (map snd ?c1). loaded_ok v"
    using values_index_entry_subset [of _ e c] cia_entry_ok [OF e] Cons.prems(2) by blast
  from Cons.IH [OF run this] show ?case .
qed

lemma set_update_subset: "set (AList.update k e c) \<subseteq> insert (k, e) (set c)"
  by (induction c) auto

lemma load_simple_ok:
  "load_simple ds c a = Inr (c', a') \<Longrightarrow> simple_store c \<Longrightarrow> simple_store c'"
proof (induction ds arbitrary: c a)
  case Nil
  then show ?case by simp
next
  case (Cons d ds)
  from Cons.prems(1) obtain e where e: "simple_entry d a = Inr e"
    by (cases "simple_entry d a") simp_all
  let ?k = "norm_str (get_or d [''country'', ''Country'', ''name''])"
  let ?c1 = "AList.update ?k e c"
  from Cons.prems(1) e have run: "load_simple ds ?c1 (Suc a) = Inr (c', a')" by simp
  note ok = simple_entry_ok [OF e]
  have k: "?k = norm_str (name e)" using ok by (simp add: norm_str_strip)
  have "distinct (map fst ?c1)" using Cons.prems(2) by (simp add: simple_store_def distinct_update)
  moreover have "\<forall>(k, v)\<in>set ?c1. loaded_ok v \<and> slug v = [] \<and> k = norm_str (name v)"
    using set_update_subset [of ?k e c] ok k Cons.prems(2) unfolding simple_store_def by blast
  ultimately have "simple_store ?c1" by (simp add: simple_store_def)
  from Cons.IH [OF run this] show ?case .
qed

lemma save_rows_every:
  assumes "\<forall>v\<in>set (map snd c). dedupe_key v \<noteq> []"
    and "\<forall>u\<in>set (map snd c). \<forall>v\<in>set (map snd c). u \<noteq> v \<longrightarrow> dedupe_key u \<noteq> dedupe_key v"
  shows "set (save_rows c) = set (map snd c)" and "distinct (save_rows c)"
proof -
  define r where "r = unique_loop (map snd c) []"
  have rows: "save_rows c = sort_key sort_rank (map snd r)" by (simp add: save_rows_def r_def)
  have r: "unique_loop (map snd c) [] = r" by (simp add: r_def)
  note n = unique_loop_Nil [OF r]
  have keys: "map fst r = map dedupe_key (map snd r)" by (rule unique_keys [OF r])
  have sub: "v \<in> set (map snd c)" if "(k, v) \<in> set r" for k v
  proof -
    from n(1) that have "\<exists>pre post. map snd c = pre @ v # post \<and> (\<forall>x\<in>set pre. dedupe_key x \<noteq> k)" by fast
    then obtain pre post where "map snd c = pre @ v # post" by blast
    then show ?thesis by (metis in_set_conv_decomp)
  qed
  show "set (save_rows c) = set (map snd c)"
  proof
    show "set (save_rows c) \<subseteq> set (map snd c)" unfolding rows using sub by auto
    show "set (map snd c) \<subseteq> set (save_rows c)"
    proof
      fix x assume x: "x \<in> set (map snd c)"
      from assms(1) x have "dedupe_key x \<noteq> []" by blast
      with n(3) x have "dedupe_key x \<in> fst ` set r" by blast
      then obtain v where v: "(dedupe_key x, v) \<in> set r" by auto
      with n(1) have "dedupe_key x = dedupe_key v" by fast
      moreover have vc: "v \<in> set (map snd c)" using sub v by blast
      ultimately have "x = v" using assms(2) x vc by blast
      then show "x \<in> set (save_rows c)" unfolding rows using v by force
    qed
  qed
  have "distinct (map dedupe_key (map snd r))" using n(2) unfolding keys .
  then have "distinct (map snd r)" using distinct_map [of dedupe_key "map snd r"] by blast
  then show "distinct (save_rows c)" unfolding rows by simp
qed

lemma cia_like_fields: "cia_like cia_fields" "\<not> cia_like simple_fields"
  by (simp_all add: cia_like_def cia_fields_def simple_fields_def string_eval)

lemma rows_nonempty:
  "filter (\<lambda>r. r \<noteq> []) (map cia_row vs) = map cia_row vs"
  "filter (\<lambda>r. r \<noteq> []) (map simple_row vs) = map simple_row vs"
  by (induction vs) (simp_all add: cia_row_def simple_row_def)

lemma simple_store_names:
  assumes "simple_store c" and "u \<in> set (map snd c)" and "v \<in> set (map snd c)" and "u \<noteq> v"
  shows "norm_str (name u) \<noteq> norm_str (name v)"
proof
  assume eq: "norm_str (name u) = norm_str (name v)"
  from assms(2,3) obtain k k' where p: "(k, u) \<in> set c" "(k', v) \<in> set c" by auto
  with assms(1) have "k = norm_str (name u)" "k' = norm_str (name v)" by (auto simp: simple_store_def)
  with eq p have "(k, u) \<in> set c" "(k, v) \<in> set c" by simp_all
  moreover have "distinct (map fst c)" using assms(1) by (simp add: simple_store_def)
  ultimately have "u = v" by (rule distinct_keys_value [rotated])
  with assms(4) show False by simp
qed

lemma stripped_triples:
  assumes "\<forall>v\<in>set vs. loaded_ok v"
  shows "(\<lambda>v. (strip (name v), of_int (py_int (ppp v)) :: rat, rank v)) ` set vs = saved_triple ` set vs"
proof (rule image_cong [OF refl])
  fix v assume "v \<in> set vs"
  with assms have "strip (name v) = name v" by (simp add: loaded_ok_def)
  then show "(strip (name v), of_int (py_int (ppp v)), rank v) = saved_triple v"
    by (simp add: saved_triple_def)
qed

lemma reload_cia_private:
  assumes ok: "\<forall>v\<in>set (map snd c1). loaded_ok v"
    and h1: "\<forall>v\<in>set (map snd c1). dedupe_key v \<noteq> []"
    and h2: "\<forall>u\<in>set (map snd c1). \<forall>v\<in>set (map snd c1). u \<noteq> v \<longrightarrow> dedupe_key u \<notin> index_keys v"
    and sch: "current_schema w1 = cia_schema"
  shows "\<exists>c2 w2. load_data h' (save_data c1 w1) = Inr (c2, w2) \<and>
           triple ` set (map snd c2) = saved_triple ` set (map snd c1)"
proof -
  let ?T = "\<lambda>v::obj. (strip (name v), of_int (py_int (ppp v)) :: rat, rank v)"
  have keys: "\<forall>u\<in>set (map snd c1). \<forall>v\<in>set (map snd c1). u \<noteq> v \<longrightarrow> dedupe_key u \<noteq> dedupe_key v"
  proof (intro ballI impI)
    fix u v assume u: "u \<in> set (map snd c1)" and v: "v \<in> set (map snd c1)" and "u \<noteq> v"
    with h2 have "dedupe_key u \<notin> index_keys v" by blast
    moreover have "dedupe_key v \<in> index_keys v" using h1 v dedupe_key_in_index_keys by blast
    ultimately show "dedupe_key u \<noteq> dedupe_key v" by auto
  qed
  note rows = save_rows_every [OF h1 keys]
  have 1: "\<forall>v\<in>set (save_rows c1). in_range v \<and> dedupe_key v \<noteq> []"
    unfolding rows(1) using ok h1 by (auto simp: loaded_ok_def)
  have 3: "\<forall>u\<in>set (save_rows c1). \<forall>v\<in>set (save_rows c1). u \<noteq> v \<longrightarrow> dedupe_key u \<notin> index_keys v"
    unfolding rows(1) by (rule h2)
  from load_cia_private [OF 1 rows(2) 3, of h' "[]" "next_oid w1"] obtain c2 a2 where all:
    "load_cia h' (map (\<lambda>v. dict_row cia_fields (cia_row v)) (save_rows c1)) [] (next_oid w1) = Inr (c2, a2) \<and>
     (\<forall>k. k \<notin> \<Union> (index_keys ` set (save_rows c1)) \<longrightarrow> map_of c2 k = map_of ([] :: cache) k) \<and>
     (\<forall>v\<in>set (save_rows c1). \<exists>e. map_of c2 (dedupe_key v) = Some e \<and> triple e = ?T v) \<and>
     triple ` set (map snd c2) \<subseteq> triple ` set (map snd ([] :: cache)) \<union> ?T ` set (save_rows c1)"
    by blast
  note r = all [THEN conjunct1] all [THEN conjunct2, THEN conjunct2, THEN conjunct1]
    all [THEN conjunct2, THEN conjunct2, THEN conjunct2]
  have written: "data_file (save_data c1 w1) = Some (cia_fields # map cia_row (save_rows c1))"
    by (simp add: save_data_def sch cia_schema_def current_fieldnames_def write_row_def)
  have dr: "dict_rows (cia_fields # map cia_row (save_rows c1)) =
      (cia_fields, map (\<lambda>v. dict_row cia_fields (cia_row v)) (save_rows c1))"
    by (simp add: dict_rows_def rows_nonempty)
  have "load_data h' (save_data c1 w1) =
      Inr (c2, (save_data c1 w1)\<lparr>current_schema := cia_schema, next_oid := a2\<rparr>)"
    using r(1) by (simp add: load_data_def written dr cia_like_fields save_data_frame)
  moreover have "triple ` set (map snd c2) = saved_triple ` set (map snd c1)"
  proof -
    have sub: "triple ` set (map snd c2) \<subseteq> ?T ` set (save_rows c1)" using r(3) by simp
    have sup: "?T ` set (save_rows c1) \<subseteq> triple ` set (map snd c2)"
    proof
      fix t assume "t \<in> ?T ` set (save_rows c1)"
      then obtain v where v: "v \<in> set (save_rows c1)" and t: "t = ?T v" by blast
      from r(2) v obtain e where e: "map_of c2 (dedupe_key v) = Some e" "triple e = ?T v" by blast
      from e(1) have "(dedupe_key v, e) \<in> set c2" by (rule map_of_SomeD)
      then have "e \<in> set (map snd c2)" by force
      with e(2) t show "t \<in> triple ` set (map snd c2)" by force
    qed
    have "\<forall>v\<in>set (save_rows c1). loaded_ok v" unfolding rows(1) by (rule ok)
    from stripped_triples [OF this] sub sup show ?thesis by (simp add: rows(1))
  qed
  ultimately show ?thesis by blast
qed

lemma reload_simple_private:
  assumes st: "simple_store c1"
    and h1: "\<forall>v\<in>set (map snd c1). dedupe_key v \<noteq> []"
    and sch: "current_schema w1 = default_schema"
  shows "\<exists>c2 w2. load_data h' (save_data c1 w1) = Inr (c2, w2) \<and>
           triple ` set (map snd c2) = saved_triple ` set (map snd c1)"
proof -
  have ok: "\<forall>v\<in>set (map snd c1). loaded_ok v" using st by (auto simp: simple_store_def)
  have dk: "dedupe_key v = norm_str (name v)" if "v \<in> set (map snd c1)" for v
  proof -
    from st that have "slug v = []" by (auto simp: simple_store_def)
    then show ?thesis by (simp add: dedupe_key_def norm_str_Nil)
  qed
  have names: "\<forall>u\<in>set (map snd c1). \<forall>v\<in>set (map snd c1). u \<noteq> v \<longrightarrow> norm_str (name u) \<noteq> norm_str (name v)"
    using simple_store_names [OF st] by blast
  have keys: "\<forall>u\<in>set (map snd c1). \<forall>v\<in>set (map snd c1). u \<noteq> v \<longrightarrow> dedupe_key u \<noteq> dedupe_key v"
    using names dk by simp
  note rows = save_rows_every [OF h1 keys]
  have 1: "\<forall>v\<in>set (save_rows c1). in_range v"
    unfolding rows(1) using ok by (auto simp: loaded_ok_def)
  have 3: "\<forall>u\<in>set (save_rows c1). \<forall>v\<in>set (save_rows c1). u \<noteq> v \<longrightarrow> norm_str (name u) \<noteq> norm_str (name v)"
    unfolding rows(1) by (rule names)
  have 4: "\<forall>v\<in>set (save_rows c1). norm_str (name v) \<notin> fst ` set ([] :: cache)" by simp
  from load_simple_written [OF 1 rows(2) 3 4, of "next_oid w1"] obtain c2 a2 where r:
    "load_simple (map (\<lambda>v. dict_row simple_fields (simple_row v)) (save_rows c1)) [] (next_oid w1) = Inr (c2, a2)"
    "triple ` set (map snd c2) =
       triple ` set (map snd ([] :: cache)) \<union>
       (\<lambda>v. (strip (name v), of_int (py_int (ppp v)), rank v)) ` set (save_rows c1)"
    by blast
  have ne: "simple_fields \<noteq> cia_fields" by (simp add: simple_fields_def cia_fields_def)
  have written: "data_file (save_data c1 w1) = Some (simple_fields # map simple_row (save_rows c1))"
    by (simp add: save_data_def sch default_schema_def current_fieldnames_def write_row_def ne)
  have dr: "dict_rows (simple_fields # map simple_row (save_rows c1)) =
      (simple_fields, map (\<lambda>v. dict_row simple_fields (simple_row v)) (save_rows c1))"
    by (simp add: dict_rows_def rows_nonempty)
  have "load_data h' (save_data c1 w1) =
      Inr (c2, (save_data c1 w1)\<lparr>current_schema := default_schema, next_oid := a2\<rparr>)"
    using r(1) by (simp add: load_data_def written dr cia_like_fields save_data_frame)
  moreover have "triple ` set (map snd c2) = saved_triple ` set (map snd c1)"
  proof -
    have "\<forall>v\<in>set (save_rows c1). loaded_ok v" unfolding rows(1) by (rule ok)
    from stripped_triples [OF this] r(2) show ?thesis by (simp add: rows(1))
  qed
  ultimately show ?thesis by blast
qed

lemma reload_empty:
  "\<exists>c2 w2. load_data h' (save_data [] w) = Inr (c2, w2) \<and> set (map snd c2) = {}"
proof -
  have written: "data_file (save_data [] w) = Some [current_fieldnames (current_schema w)]"
    by (simp add: save_data_def save_rows_def)
  show ?thesis
    by (cases "cia_like (current_fieldnames (current_schema w))")
      (simp_all add: load_data_def written dict_rows_def)
qed

lemmas load_eval =
  load_data_def cia_entry_def simple_entry_def get_or.simps file_eval mk_obj_def cia_schema_def
  clean_int_def py_str_def py_int_def index_entry_def make_index_keys_def name_first_def

lemma load_dup:
  "load_data name_first world_dup = Inr (store_dup, world_dup\<lparr>current_schema := cia_schema, next_oid := 2\<rparr>)"
  by (simp add: world_dup_def store_dup_def load_eval clean_eval string_eval float_eval)

lemma save_dup: "save_rows store_dup = [mk_obj ''A'' 2 3 ''y'' 1]"
  by (simp add: save_rows_def store_dup_def mk_obj_def dedupe_key_def sort_rank_def sort_key_def
      string_eval order_eval)

lemma reload_dup:
  "load_data name_first (save_data store_dup (world_dup\<lparr>current_schema := cia_schema, next_oid := 2\<rparr>)) =
     Inr ([(''a'', mk_obj ''A'' 2 3 ''y'' 2), (''y'', mk_obj ''A'' 2 3 ''y'' 2)],
          (save_data store_dup (world_dup\<lparr>current_schema := cia_schema, next_oid := 2\<rparr>))
            \<lparr>current_schema := cia_schema, next_oid := 3\<rparr>)"
proof -
  have f: "data_file (save_data store_dup (world_dup\<lparr>current_schema := cia_schema, next_oid := 2\<rparr>)) =
      Some [cia_fields, [''A'', ''y'', ''2'', [], ''3'', []]]"
    by (simp add: save_data_def save_dup cia_schema_def current_fieldnames_def write_row_def cia_row_def
        mk_obj_def format_eval)
  show ?thesis
    unfolding load_data_def f
    by (simp add: save_data_frame load_eval clean_eval string_eval float_eval)
qed

lemma load_cross:
  "load_data name_first world_cross = Inr (store_cross, world_cross\<lparr>current_schema := cia_schema, next_oid := 2\<rparr>)"
  by (simp add: world_cross_def store_cross_def load_eval clean_eval string_eval float_eval)

lemma save_cross: "save_rows store_cross = [mk_obj ''A'' 5 1 [] 1, mk_obj ''B'' 7 2 ''a'' 0]"
  by (simp add: save_rows_def store_cross_def mk_obj_def dedupe_key_def sort_rank_def sort_key_def
      string_eval order_eval)

lemma reload_cross:
  "load_data name_first (save_data store_cross (world_cross\<lparr>current_schema := cia_schema, next_oid := 2\<rparr>)) =
     Inr ([(''a'', mk_obj ''B'' 7 2 ''a'' 3), (''b'', mk_obj ''B'' 7 2 ''a'' 3)],
          (save_data store_cross (world_cross\<lparr>current_schema := cia_schema, next_oid := 2\<rparr>))
            \<lparr>current_schema := cia_schema, next_oid := 4\<rparr>)"
proof -
  have f: "data_file (save_data store_cross (world_cross\<lparr>current_schema := cia_schema, next_oid := 2\<rparr>)) =
      Some [cia_fields, [''A'', [], ''5'', [], ''1'', []], [''B'', ''a'', ''7'', [], ''2'', []]]"
    by (simp add: save_data_def save_cross cia_schema_def current_fieldnames_def write_row_def cia_row_def
        mk_obj_def format_eval)
  show ?thesis
    unfolding load_data_def f
    by (simp add: save_data_frame load_eval clean_eval string_eval float_eval)
qed

lemma load_nameless:
  "load_data name_first world_nameless =
     Inr ([([], mk_obj [] 5 1 [] 0)], world_nameless\<lparr>current_schema := default_schema, next_oid := 1\<rparr>)"
  by (simp add: world_nameless_def load_eval clean_eval string_eval float_eval)

lemma reload_nameless:
  "load_data name_first (save_data [([], mk_obj [] 5 1 [] 0)] (world_nameless\<lparr>current_schema := default_schema, next_oid := 1\<rparr>)) =
     Inr ([], (save_data [([], mk_obj [] 5 1 [] 0)] (world_nameless\<lparr>current_schema := default_schema, next_oid := 1\<rparr>))
            \<lparr>current_schema := default_schema, next_oid := 1\<rparr>)"
proof -
  have r: "save_rows [([], mk_obj [] 5 1 [] 0)] = []"
    by (simp add: save_rows_def mk_obj_def dedupe_key_def string_eval)
  have f: "data_file (save_data [([], mk_obj [] 5 1 [] 0)] (world_nameless\<lparr>current_schema := default_schema, next_oid := 1\<rparr>)) =
      Some [[''country'', ''ppp'', ''rank'']]"
    by (simp add: save_data_def r file_eval)
  show ?thesis
    unfolding load_data_def f
    by (simp add: save_data_frame load_eval string_eval)
qed

text \<open>
  C3, as stated: for every file of an accepted layout, load, save and reload give the same
  (name, ppp, rank) triples, up to the truncation of ppp.  Three files for which a triple of
  the first load is gone after the reload.  \<^verbatim>\<open>save_data\<close> writes one record per key, the
  normalised name: \<open>world_dup\<close> has two rows with the name \<^verbatim>\<open>A\<close> and the slugs \<^verbatim>\<open>x\<close> and
  \<^verbatim>\<open>y\<close>; both records are in the store after the load, and only one is written.  The rows
  are written in the order of the ranks: in \<open>world_cross\<close> the record \<^verbatim>\<open>B\<close> has the slug \<^verbatim>\<open>a\<close>
  and the record \<^verbatim>\<open>A\<close>, which follows it, has the lower rank; both are written, \<^verbatim>\<open>A\<close> first, and
  at the reload \<^verbatim>\<open>B\<close> takes the key \<^verbatim>\<open>a\<close> from it.  And a record without a key is not
  written: the row of \<open>world_nameless\<close> has no name, is loaded under the key \<^verbatim>\<open>""\<close>, and is
  left out by \<^verbatim>\<open>save_data\<close>.
\<close>

theorem roundtrip_counterexample:
  "(\<exists>c1 w1 c2 w2.
     load_data name_first world_dup = Inr (c1, w1) \<and>
     load_data name_first (save_data c1 w1) = Inr (c2, w2) \<and>
     (''A'', 1, 0) \<in> saved_triple ` set (map snd c1) \<and>
     (''A'', 1, 0) \<notin> triple ` set (map snd c2)) \<and>
   (\<exists>c1 w1 c2 w2.
     load_data name_first world_cross = Inr (c1, w1) \<and>
     load_data name_first (save_data c1 w1) = Inr (c2, w2) \<and>
     (''A'', 5, 1) \<in> saved_triple ` set (map snd c1) \<and>
     (''A'', 5, 1) \<notin> triple ` set (map snd c2)) \<and>
   (\<exists>c1 w1 c2 w2.
     load_data name_first world_nameless = Inr (c1, w1) \<and>
     load_data name_first (save_data c1 w1) = Inr (c2, w2) \<and>
     ([], 5, 1) \<in> saved_triple ` set (map snd c1) \<and>
     ([], 5, 1) \<notin> triple ` set (map snd c2))"
proof -
  have 1: "(''A'', 1, 0) \<in> saved_triple ` set (map snd store_dup)"
    by (simp add: store_dup_def mk_obj_def saved_triple_def py_int_def image_iff)
  have 2: "(''A'', 1, 0) \<notin> triple ` set (map snd [(''a'', mk_obj ''A'' 2 3 ''y'' 2), (''y'', mk_obj ''A'' 2 3 ''y'' 2)])"
    by (simp add: mk_obj_def triple_def)
  have 3: "(''A'', 5, 1) \<in> saved_triple ` set (map snd store_cross)"
    by (simp add: store_cross_def mk_obj_def saved_triple_def py_int_def image_iff)
  have 4: "(''A'', 5, 1) \<notin> triple ` set (map snd [(''a'', mk_obj ''B'' 7 2 ''a'' 3), (''b'', mk_obj ''B'' 7 2 ''a'' 3)])"
    by (simp add: mk_obj_def triple_def)
  have 5: "([], 5, 1) \<in> saved_triple ` set (map snd [([], mk_obj [] 5 1 [] 0)])"
    by (simp add: mk_obj_def saved_triple_def py_int_def image_iff)
  have 6: "([], 5, 1) \<notin> triple ` set (map snd ([] :: cache))"
    by simp
  from load_dup reload_dup 1 2 have a: "\<exists>c1 w1 c2 w2.
     load_data name_first world_dup = Inr (c1, w1) \<and>
     load_data name_first (save_data c1 w1) = Inr (c2, w2) \<and>
     (''A'', 1, 0) \<in> saved_triple ` set (map snd c1) \<and>
     (''A'', 1, 0) \<notin> triple ` set (map snd c2)" by blast
  from load_cross reload_cross 3 4 have b: "\<exists>c1 w1 c2 w2.
     load_data name_first world_cross = Inr (c1, w1) \<and>
     load_data name_first (save_data c1 w1) = Inr (c2, w2) \<and>
     (''A'', 5, 1) \<in> saved_triple ` set (map snd c1) \<and>
     (''A'', 5, 1) \<notin> triple ` set (map snd c2)" by blast
  from load_nameless reload_nameless 5 6 have c: "\<exists>c1 w1 c2 w2.
     load_data name_first world_nameless = Inr (c1, w1) \<and>
     load_data name_first (save_data c1 w1) = Inr (c2, w2) \<and>
     ([], 5, 1) \<in> saved_triple ` set (map snd c1) \<and>
     ([], 5, 1) \<notin> triple ` set (map snd c2)" by blast
  from a b c show ?thesis by (intro conjI)
qed

text \<open>
  C3, amended: let a file of either layout load without error and with finite values.  Let
  every loaded record have a key for \<^verbatim>\<open>save_data\<close> (its normalised name, or its normalised
  slug when that name is empty) that is not empty; under the extended layout let this key
  be neither the normalised name nor the normalised slug of a different loaded record
  (two records may share a slug when both have names).  Then saving the store unchanged and
  reloading (under any iteration order of the key sets) succeeds, and the records of the
  reloaded store have exactly the triples (name, ppp truncated to an integer, rank) of the
  records of the first store.
\<close>

theorem load_save_reload:
  assumes "load_data h w = Inr (c1, w1)"
    and "\<forall>v\<in>set (map snd c1). dedupe_key v \<noteq> []"
    and "has_slug (current_schema w1) \<longrightarrow>
           (\<forall>u\<in>set (map snd c1). \<forall>v\<in>set (map snd c1). u \<noteq> v \<longrightarrow> dedupe_key u \<notin> index_keys v)"
  shows "\<exists>c2 w2. load_data h' (save_data c1 w1) = Inr (c2, w2) \<and>
           triple ` set (map snd c2) = saved_triple ` set (map snd c1)"
proof (cases "data_file w")
  case None
  with assms(1) have "c1 = []" "w1 = w" by (simp_all add: load_data_def)
  with reload_empty [of h' w] show ?thesis by auto
next
  case (Some f)
  obtain fns ds where d: "dict_rows f = (fns, ds)" by (cases "dict_rows f")
  show ?thesis
  proof (cases "cia_like fns")
    case True
    with assms(1) Some d obtain a where
      l: "load_cia h ds [] (next_oid w) = Inr (c1, a)" and w1: "w1 = w\<lparr>current_schema := cia_schema, next_oid := a\<rparr>"
      by (auto simp: load_data_def split: sum.splits)
    have ok: "\<forall>v\<in>set (map snd c1). loaded_ok v" by (rule load_cia_ok [OF l]) simp
    have sch: "current_schema w1 = cia_schema" by (simp add: w1)
    then have "has_slug (current_schema w1)" by (simp add: cia_schema_def)
    with assms(3) have h2: "\<forall>u\<in>set (map snd c1). \<forall>v\<in>set (map snd c1). u \<noteq> v \<longrightarrow> dedupe_key u \<notin> index_keys v"
      by blast
    show ?thesis by (rule reload_cia_private [OF ok assms(2) h2 sch])
  next
    case False
    with assms(1) Some d obtain a where
      l: "load_simple ds [] (next_oid w) = Inr (c1, a)" and w1: "w1 = w\<lparr>current_schema := default_schema, next_oid := a\<rparr>"
      by (auto simp: load_data_def split: sum.splits)
    have st: "simple_store c1" by (rule load_simple_ok [OF l]) (simp add: simple_store_def)
    have sch: "current_schema w1 = default_schema" by (simp add: w1)
    show ?thesis by (rule reload_simple_private [OF st assms(2) sch])
  qed
qed

lemma load_mixed:
  "load_data name_first world_mixed =
     Inr (store_mixed, world_mixed\<lparr>current_schema := cia_schema, next_oid := 4\<rparr>)"
  by (simp add: world_mixed_def store_mixed_def load_eval clean_eval string_eval float_eval)

lemma load_plain:
  "load_data name_first world_plain =
     Inr (store_plain, world_plain\<lparr>current_schema := default_schema, next_oid := 2\<rparr>)"
  by (simp add: world_plain_def store_plain_def load_eval clean_eval string_eval float_eval)

theorem load_save_reload_witness:
  "(\<exists>c1 w1 c2 w2.
     load_data name_first world_mixed = Inr (c1, w1) \<and>
     load_data name_first (save_data c1 w1) = Inr (c2, w2) \<and>
     triple ` set (map snd c2) = {(''France'', 3636, 10), (''B'', 250, 2), (''C'', 7, 3), ([], 5, 4)}) \<and>
   (\<exists>c1 w1 c2 w2.
     load_data name_first world_plain = Inr (c1, w1) \<and>
     load_data name_first (save_data c1 w1) = Inr (c2, w2) \<and>
     triple ` set (map snd c2) = {(''A'', 100, 1), (''b'', 250, 0)})"
proof -
  let ?w1 = "world_mixed\<lparr>current_schema := cia_schema, next_oid := 4\<rparr>"
  have h1: "\<forall>v\<in>set (map snd store_mixed). dedupe_key v \<noteq> []"
    by (simp add: store_mixed_def mk_obj_def dedupe_key_def string_eval)
  have h2: "has_slug (current_schema ?w1) \<longrightarrow>
           (\<forall>u\<in>set (map snd store_mixed). \<forall>v\<in>set (map snd store_mixed).
              u \<noteq> v \<longrightarrow> dedupe_key u \<notin> index_keys v)"
    by (simp add: store_mixed_def mk_obj_def index_keys_def dedupe_key_def string_eval)
  from load_save_reload [OF load_mixed h1 h2, of name_first] obtain c2 w2 where r:
    "load_data name_first (save_data store_mixed ?w1) = Inr (c2, w2)"
    "triple ` set (map snd c2) = saved_triple ` set (map snd store_mixed)"
    by blast
  have fl: "\<lfloor>36369 / 10 :: rat\<rfloor> = 3636"
    by (rule floor_unique) simp_all
  have "saved_triple ` set (map snd store_mixed) = {(''France'', 3636, 10), (''B'', 250, 2), (''C'', 7, 3), ([], 5, 4)}"
    by (simp add: store_mixed_def mk_obj_def saved_triple_def py_int_def fl)
  with load_mixed r have a: "\<exists>c1 w1 c2 w2.
     load_data name_first world_mixed = Inr (c1, w1) \<and>
     load_data name_first (save_data c1 w1) = Inr (c2, w2) \<and>
     triple ` set (map snd c2) = {(''France'', 3636, 10), (''B'', 250, 2), (''C'', 7, 3), ([], 5, 4)}"
    by metis
  let ?v1 = "world_plain\<lparr>current_schema := default_schema, next_oid := 2\<rparr>"
  have g1: "\<forall>v\<in>set (map snd store_plain). dedupe_key v \<noteq> []"
    by (simp add: store_plain_def mk_obj_def dedupe_key_def string_eval)
  have g2: "has_slug (current_schema ?v1) \<longrightarrow>
           (\<forall>u\<in>set (map snd store_plain). \<forall>v\<in>set (map snd store_plain).
              u \<noteq> v \<longrightarrow> dedupe_key u \<notin> index_keys v)"
    by (simp add: default_schema_def)
  from load_save_reload [OF load_plain g1 g2, of name_first] obtain d2 v2 where q:
    "load_data name_first (save_data store_plain ?v1) = Inr (d2, v2)"
    "triple ` set (map snd d2) = saved_triple ` set (map snd store_plain)"
    by blast
  have fl2: "\<lfloor>201 / 2 :: rat\<rfloor> = 100"
    by (rule floor_unique) simp_all
  have "saved_triple ` set (map snd store_plain) = {(''A'', 100, 1), (''b'', 250, 0)}"
    by (simp add: store_plain_def mk_obj_def saved_triple_def py_int_def fl2)
  with load_plain q have b: "\<exists>c1 w1 c2 w2.
     load_data name_first world_plain = Inr (c1, w1) \<and>
     load_data name_first (save_data c1 w1) = Inr (c2, w2) \<and>
     triple ` set (map snd c2) = {(''A'', 100, 1), (''b'', 250, 0)}"
    by metis
  from a b show ?thesis by (intro conjI)
qed

end
